theory Spec2Isabelle
  imports Complex_Main "HOL-Library.Multiset" "HOL-Library.Log_Nat"
begin

section \<open>Spherical Delaunay triangulation and Voronoi diagram (s2delaunay, s2voronoi)\<close>

text \<open>
  The development embeds the construction pipeline of the repository: the package
  \<open>s2delaunay\<close> (type \<open>Triangulation\<close>, \<open>NewTriangulation\<close> and its helpers) and
  the file \<open>s2voronoi.go\<close> (type \<open>Diagram\<close>, \<open>NewDiagram\<close>, \<open>triangleCircumcenter\<close>).

  Conventions of the embedding.
  \<^item> A Go \<open>int\<close> that holds a site index coming from the convex-hull routine is an
    \<open>int\<close>: it may be negative or too large, and the code then panics on the slice
    access. Positions produced by \<open>range\<close> loops and counters that start at zero and
    are only incremented are \<open>nat\<close>. The 64-bit bound of Go's \<open>int\<close> is not modelled.
  \<^item> A \<open>float64\<close> value is a \<open>real\<close>: there is no infinity and no NaN. The
    comparisons of the source (\<open>< 0\<close>, \<open><= 0\<close>, \<open>== 0\<close>) are exact, in Go as here.
    The arithmetic is not: all of it happens inside the vector operations of the
    library (see below), and nothing is assumed about their rounding.
  \<^item> Every error return and every run-time panic of the source is a value \<open>Inl e\<close>
    of the result type \<open>error + 'a\<close>. The source builds its errors from message strings;
    the constructors of \<open>error\<close> name the kinds of messages.
  \<^item> The convex-hull routine (package quickhull) and the vector operations (package
    r3 of golang/geo) are not code of this repository. The hull routine is a parameter
    \<open>convexHull\<close> of the constructors: \<open>convexHull vs eps\<close> stands for
    \<open>ConvexHull(vs, true, true, eps).Indices\<close>, any function whatever. The vector
    operations are a parameter \<open>ops\<close>, any six functions whatever: a property stated
    for every \<open>ops\<close> holds whatever the library computes. \<open>exact_r3\<close> is the
    library computing without rounding, \<open>float64_r3\<close> the library computing in
    \<open>float64\<close>.
\<close>

subsection \<open>Errors\<close>

datatype error =
    InsufficientInput       \<comment> \<open>"insufficient vertices for triangulation minimum 4 required"\<close>
  | InvalidTolerance        \<comment> \<open>"WithEps: eps must be positive"\<close>
  | InconsistentHullOutput  \<comment> \<open>"inconsistent number of indices returned from QuickHull"\<close>
  | IndexOutOfRange         \<comment> \<open>"vIdx out of range", "tIdx out of bounds"\<close>
  | VertexNotInTriangle     \<comment> \<open>"vIdx not in triangle"\<close>
  | Panic                   \<comment> \<open>a run-time panic: slice index out of range, or \<open>panic(err)\<close>\<close>

text \<open>Sequencing of fallible steps: the first error (or panic) ends the computation.\<close>

definition ebind :: "error + 'a \<Rightarrow> ('a \<Rightarrow> error + 'b) \<Rightarrow> error + 'b" where
  "ebind m f = (case m of Inl e \<Rightarrow> Inl e | Inr x \<Rightarrow> f x)"

text \<open>A \<open>for ... range\<close> loop whose body may fail, as a fold that stops at the first error.\<close>

fun efold :: "('a \<Rightarrow> 's \<Rightarrow> error + 's) \<Rightarrow> 'a list \<Rightarrow> 's \<Rightarrow> error + 's" where
  "efold f [] s = Inr s"
| "efold f (x # xs) s = (case f x s of Inl e \<Rightarrow> Inl e | Inr s' \<Rightarrow> efold f xs s')"

subsection \<open>Vectors (r3.Vector, s2.Point)\<close>

datatype Vector = Vector (X: real) (Y: real) (Z: real)

text \<open>
  The operations of \<open>r3.Vector\<close> that the program calls: \<open>p.Sub(q)\<close> is
  \<open>Sub ops p q\<close>, and so on.
\<close>

record r3ops =
  Add :: "Vector \<Rightarrow> Vector \<Rightarrow> Vector"
  Sub :: "Vector \<Rightarrow> Vector \<Rightarrow> Vector"
  Mul :: "Vector \<Rightarrow> real \<Rightarrow> Vector"
  Dot :: "Vector \<Rightarrow> Vector \<Rightarrow> real"
  Cross :: "Vector \<Rightarrow> Vector \<Rightarrow> Vector"
  Normalize :: "Vector \<Rightarrow> Vector"

text \<open>\<open>math.Sqrt\<close>. It is left as it stands when the definitions are evaluated.\<close>

definition Sqrt :: "real \<Rightarrow> real" where [code del]:
  "Sqrt x = sqrt x"

text \<open>
  The library as its source computes, every arithmetic result passed through the
  rounding \<open>rnd\<close>: each product and each sum or difference is rounded on its own
  (no fused multiply-add), sums are taken from left to right, and \<open>Normalize\<close>
  returns the zero vector for a vector whose \<open>Norm2\<close> (its \<open>Dot\<close> with itself) is
  zero and otherwise multiplies by \<open>1 / math.Sqrt(Norm2)\<close>.
\<close>

definition r3_rounded :: "(real \<Rightarrow> real) \<Rightarrow> r3ops" where
  "r3_rounded rnd =
     \<lparr>Add = (\<lambda>v ov. Vector (rnd (X v + X ov)) (rnd (Y v + Y ov)) (rnd (Z v + Z ov))),
      Sub = (\<lambda>v ov. Vector (rnd (X v - X ov)) (rnd (Y v - Y ov)) (rnd (Z v - Z ov))),
      Mul = (\<lambda>v m. Vector (rnd (m * X v)) (rnd (m * Y v)) (rnd (m * Z v))),
      Dot = (\<lambda>v ov. rnd (rnd (rnd (X v * X ov) + rnd (Y v * Y ov)) + rnd (Z v * Z ov))),
      Cross = (\<lambda>v ov. Vector (rnd (rnd (Y v * Z ov) - rnd (Z v * Y ov)))
                               (rnd (rnd (Z v * X ov) - rnd (X v * Z ov)))
                               (rnd (rnd (X v * Y ov) - rnd (Y v * X ov)))),
      Normalize = (\<lambda>v.
        let n2 = rnd (rnd (rnd (X v * X v) + rnd (Y v * Y v)) + rnd (Z v * Z v))
        in if n2 = 0 then Vector 0 0 0
           else let m = rnd (1 / rnd (Sqrt n2))
                in Vector (rnd (m * X v)) (rnd (m * Y v)) (rnd (m * Z v)))\<rparr>"

text \<open>The library in exact arithmetic.\<close>

definition exact_r3 :: r3ops where
  "exact_r3 = r3_rounded (\<lambda>x. x)"

subsection \<open>float64 arithmetic\<close>

text \<open>
  The result of a \<open>float64\<close> operation is the exact result rounded to the nearest
  binary64 number, ties to the even significand (IEEE 754, which Go prescribes):
  \<open>exponent x\<close> is the binary exponent of \<open>x\<close>, at least \<open>-1022\<close> for the
  rounding (below it the numbers are subnormal), and the significand has 53 bits.
  Overflow to infinity is not modelled.
\<close>

definition pow2 :: "int \<Rightarrow> real" where
  "pow2 e = (if 0 \<le> e then 2 ^ nat e else 1 / 2 ^ nat (- e))"

definition exponent :: "real \<Rightarrow> int" where
  "exponent x =
     (let a = \<bar>x\<bar> in
      if 1 \<le> a then bitlen \<lfloor>a\<rfloor> - 1
      else let k = bitlen \<lfloor>1 / a\<rfloor> - 1 in if 1 / a = 2 ^ nat k then - k else - k - 1)"

definition round_even :: "real \<Rightarrow> int" where
  "round_even q =
     (let f = \<lfloor>q\<rfloor>; d = q - of_int f in
      if d < 1 / 2 then f else if 1 / 2 < d then f + 1 else if even f then f else f + 1)"

definition fl64 :: "real \<Rightarrow> real" where
  "fl64 x =
     (if x = 0 then 0
      else let e = max (exponent x) (- 1022); ulp = pow2 (e - 52)
           in of_int (round_even (x / ulp)) * ulp)"

text \<open>The library in \<open>float64\<close> arithmetic.\<close>

definition float64_r3 :: r3ops where
  "float64_r3 = r3_rounded fl64"

subsection \<open>The norm\<close>

text \<open>The Euclidean norm of a vector, a real number.\<close>

definition Norm :: "Vector \<Rightarrow> real" where
  "Norm v = sqrt (X v * X v + Y v * Y v + Z v * Z v)"

subsection \<open>Triangles: PrevVertex and NextVertex\<close>

type_synonym triangle = "int \<times> int \<times> int"

text \<open>A Go \<open>switch\<close> takes the first case that matches, also when two entries are equal.\<close>

definition PrevVertex :: "triangle \<Rightarrow> int \<Rightarrow> error + int" where
  "PrevVertex t vIdx = (case t of (t0, t1, t2) \<Rightarrow>
     if vIdx = t0 then Inr t2
     else if vIdx = t1 then Inr t0
     else if vIdx = t2 then Inr t1
     else Inl VertexNotInTriangle)"

definition NextVertex :: "triangle \<Rightarrow> int \<Rightarrow> error + int" where
  "NextVertex t vIdx = (case t of (t0, t1, t2) \<Rightarrow>
     if vIdx = t0 then Inr t1
     else if vIdx = t1 then Inr t2
     else if vIdx = t2 then Inr t0
     else Inl VertexNotInTriangle)"

definition in_triangle :: "int \<Rightarrow> triangle \<Rightarrow> bool" where
  "in_triangle v t = (case t of (t0, t1, t2) \<Rightarrow> v = t0 \<or> v = t1 \<or> v = t2)"

definition distinct_triangle :: "triangle \<Rightarrow> bool" where
  "distinct_triangle t = (case t of (t0, t1, t2) \<Rightarrow> t0 \<noteq> t1 \<and> t1 \<noteq> t2 \<and> t0 \<noteq> t2)"

subsection \<open>Options\<close>

definition defaultEps :: real where
  "defaultEps = 1 / 10 ^ 12"

record TriangulationOptions =
  Eps :: real

type_synonym TriangulationOption = "TriangulationOptions \<Rightarrow> error + TriangulationOptions"

definition WithEps :: "real \<Rightarrow> TriangulationOption" where
  "WithEps eps opts = (if eps \<le> 0 then Inl InvalidTolerance else Inr (opts\<lparr>Eps := eps\<rparr>))"

subsection \<open>The triangulation\<close>

record Triangulation =
  Vertices :: "Vector list"
  Triangles :: "triangle list"
  IncidentTriangleIndices :: "nat list"
  IncidentTriangleOffsets :: "nat list"

text \<open>Reading a slice at a Go \<open>int\<close>: a panic outside the range.\<close>

definition at_int :: "'a list \<Rightarrow> int \<Rightarrow> error + 'a" where
  "at_int xs i = (if i < 0 \<or> int (length xs) \<le> i then Inl Panic else Inr (xs ! nat i))"

definition at_nat :: "'a list \<Rightarrow> nat \<Rightarrow> error + 'a" where
  "at_nat xs i = (if length xs \<le> i then Inl Panic else Inr (xs ! i))"

text \<open>
  The slice expression \<open>s[start:end]\<close> panics when \<open>start > end\<close> or \<open>end > len(s)\<close>
  (capacity and length coincide for the slices of this program).
\<close>

definition slice :: "'a list \<Rightarrow> nat \<Rightarrow> nat \<Rightarrow> error + 'a list" where
  "slice xs start end' =
     (if end' < start \<or> length xs < end' then Inl Panic
      else Inr (take (end' - start) (drop start xs)))"

text \<open>
  \<open>IncidentTriangles\<close>. In Go the sum \<open>vIdx+1\<close> of the guard wraps around for
  \<open>vIdx = MaxInt64\<close>: the guard passes and the read of the offsets panics. With the
  unbounded \<open>int\<close> of this model the guard rejects that index as out of range. The
  properties below call \<open>IncidentTriangles\<close> at site indices only.
\<close>

definition IncidentTriangles :: "Triangulation \<Rightarrow> int \<Rightarrow> error + nat list" where
  "IncidentTriangles t vIdx =
     (if vIdx < 0 \<or> int (length (IncidentTriangleOffsets t)) \<le> vIdx + 1 then Inl IndexOutOfRange
      else slice (IncidentTriangleIndices t)
             (IncidentTriangleOffsets t ! nat vIdx) (IncidentTriangleOffsets t ! nat (vIdx + 1)))"

definition TriangleVertices :: "Triangulation \<Rightarrow> int \<Rightarrow> error + (Vector \<times> Vector \<times> Vector)" where
  "TriangleVertices t tIdx =
     (if tIdx < 0 \<or> int (length (Triangles t)) \<le> tIdx then Inl IndexOutOfRange
      else (case Triangles t ! nat tIdx of (t0, t1, t2) \<Rightarrow>
        ebind (at_int (Vertices t) t0) (\<lambda>p0.
        ebind (at_int (Vertices t) t1) (\<lambda>p1.
        ebind (at_int (Vertices t) t2) (\<lambda>p2. Inr (p0, p1, p2))))))"

text \<open>\<open>sortTriangleVerticesCCW\<close> updates the triangle in place; the model returns it.\<close>

definition sortTriangleVerticesCCW :: "r3ops \<Rightarrow> triangle \<Rightarrow> Vector list \<Rightarrow> error + triangle" where
  "sortTriangleVerticesCCW ops t v = (case t of (t0, t1, t2) \<Rightarrow>
     ebind (at_int v t0) (\<lambda>p0.
     ebind (at_int v t1) (\<lambda>p1.
     ebind (at_int v t2) (\<lambda>p2.
       let norm = Cross ops (Sub ops p1 p0) (Sub ops p2 p0)
       in if Dot ops norm p0 < 0 then Inr (t0, t2, t1) else Inr (t0, t1, t2)))))"

text \<open>
  \<open>sortIncidentTriangleIndicesCCW\<close>. The inner loop, from position \<open>j\<close> on: the first
  position whose triangle has \<open>nxt\<close> as previous vertex at \<open>vIdx\<close>, if there is one.
\<close>

function find_match :: "int \<Rightarrow> triangle list \<Rightarrow> nat list \<Rightarrow> int \<Rightarrow> nat \<Rightarrow> error + nat option" where
  "find_match vIdx tris incidentTris nxt j =
     (if j < length incidentTris then
        (case at_nat tris (incidentTris ! j) of Inl e \<Rightarrow> Inl e
         | Inr t \<Rightarrow>
            (case PrevVertex t vIdx of Inl e \<Rightarrow> Inl Panic
             | Inr prv \<Rightarrow>
                 if nxt = prv then Inr (Some j)
                 else find_match vIdx tris incidentTris nxt (j + 1)))
      else Inr None)"
  by pat_completeness auto
termination
  by (relation "measure (\<lambda>(vIdx, tris, incidentTris, nxt, j). length incidentTris - j)") auto

text \<open>The outer loop, from position \<open>i\<close> on; a match is swapped into position \<open>i\<close>.\<close>

function sort_from :: "int \<Rightarrow> triangle list \<Rightarrow> nat \<Rightarrow> nat list \<Rightarrow> error + nat list" where
  "sort_from vIdx tris i incidentTris =
     (if i < length incidentTris then
        (case at_nat tris (incidentTris ! (i - 1)) of Inl e \<Rightarrow> Inl e
         | Inr t \<Rightarrow>
            (case NextVertex t vIdx of Inl e \<Rightarrow> Inl Panic
             | Inr nxt \<Rightarrow>
                (case find_match vIdx tris incidentTris nxt (i + 1) of Inl e \<Rightarrow> Inl e
                 | Inr None \<Rightarrow> sort_from vIdx tris (i + 1) incidentTris
                 | Inr (Some j) \<Rightarrow>
                     sort_from vIdx tris (i + 1)
                       (incidentTris[i := incidentTris ! j, j := incidentTris ! i]))))
      else Inr incidentTris)"
  by pat_completeness auto
termination
  by (relation "measure (\<lambda>(vIdx, tris, i, incidentTris). length incidentTris - i)") auto

definition sortIncidentTriangleIndicesCCW :: "int \<Rightarrow> nat list \<Rightarrow> triangle list \<Rightarrow> error + nat list" where
  "sortIncidentTriangleIndicesCCW vIdx incidentTris tris = sort_from vIdx tris 1 incidentTris"

subsection \<open>NewTriangulation\<close>

fun apply_setters :: "TriangulationOption list \<Rightarrow> TriangulationOptions \<Rightarrow> error + TriangulationOptions" where
  "apply_setters [] opts = Inr opts"
| "apply_setters (setter # rest) opts =
     (case setter opts of Inl e \<Rightarrow> Inl e | Inr opts' \<Rightarrow> apply_setters rest opts')"

text \<open>The counting pass: \<open>offsets[idx+1]++\<close> for every index of the hull output.\<close>

fun count_pass :: "int list \<Rightarrow> nat list \<Rightarrow> error + nat list" where
  "count_pass [] offs = Inr offs"
| "count_pass (idx # rest) offs =
     (if idx + 1 < 0 \<or> int (length offs) \<le> idx + 1 then Inl Panic
      else count_pass rest (offs[nat (idx + 1) := offs ! nat (idx + 1) + 1]))"

text \<open>The prefix sum: \<open>offsets[i+1] += offsets[i]\<close> for \<open>i\<close> in \<open>range numVertices\<close>.\<close>

definition prefix_pass :: "nat \<Rightarrow> nat list \<Rightarrow> nat list" where
  "prefix_pass numVertices offs =
     fold (\<lambda>i offs. offs[i + 1 := offs ! (i + 1) + offs ! i]) [0..<numVertices] offs"

text \<open>
  The placement pass. One incidence: \<open>indices[nxt[v]] = i; nxt[v]++\<close>, for the
  site \<open>v\<close> read from the hull output.
\<close>

definition place1 :: "nat \<Rightarrow> int \<Rightarrow> nat list \<times> nat list \<Rightarrow> error + (nat list \<times> nat list)" where
  "place1 i v st = (case st of (inds, nxt) \<Rightarrow>
     ebind (at_int nxt v) (\<lambda>c.
       if length inds \<le> c then Inl Panic
       else Inr (inds[c := i], nxt[nat v := c + 1])))"

definition place_step ::
  "r3ops \<Rightarrow> Vector list \<Rightarrow> int list \<Rightarrow> nat \<Rightarrow> triangle list \<times> nat list \<times> nat list
     \<Rightarrow> error + (triangle list \<times> nat list \<times> nat list)" where
  "place_step ops vertices ch i st = (case st of (tris, inds, nxt) \<Rightarrow>
     let base = i * 3 in
     ebind (place1 i (ch ! base) (inds, nxt)) (\<lambda>st1.
     ebind (place1 i (ch ! (base + 1)) st1) (\<lambda>st2.
     ebind (place1 i (ch ! (base + 2)) st2) (\<lambda>st3.
     ebind (sortTriangleVerticesCCW ops (ch ! base, ch ! (base + 1), ch ! (base + 2)) vertices) (\<lambda>t.
       Inr (tris[i := t], fst st3, snd st3))))))"

text \<open>
  The incidence sort of one site: \<open>IncidentTriangles(i)\<close> is a view into
  \<open>IncidentTriangleIndices\<close>, so the swaps of \<open>sortIncidentTriangleIndicesCCW\<close> land in
  that array, between the two offsets of the site.
\<close>

definition sort_step :: "nat \<Rightarrow> Triangulation \<Rightarrow> error + Triangulation" where
  "sort_step i t =
     ebind (IncidentTriangles t (int i)) (\<lambda>incidentTriangles.
     ebind (sortIncidentTriangleIndicesCCW (int i) incidentTriangles (Triangles t)) (\<lambda>sorted.
       Inr (t\<lparr>IncidentTriangleIndices :=
               take (IncidentTriangleOffsets t ! i) (IncidentTriangleIndices t) @ sorted
               @ drop (IncidentTriangleOffsets t ! (i + 1)) (IncidentTriangleIndices t)\<rparr>)))"

definition NewTriangulation ::
  "r3ops \<Rightarrow> (Vector list \<Rightarrow> real \<Rightarrow> int list) \<Rightarrow> Vector list \<Rightarrow> TriangulationOption list
     \<Rightarrow> error + Triangulation" where
  "NewTriangulation ops convexHull vertices setters =
     ebind (apply_setters setters \<lparr>Eps = defaultEps\<rparr>) (\<lambda>opts.
       let numVertices = length vertices in
       if numVertices < 4 then Inl InsufficientInput
       else
         let numTriangles = 2 * (numVertices - 2);
             ch = convexHull vertices (Eps opts)
         in if length ch \<noteq> numTriangles * 3 then Inl InconsistentHullOutput
         else
           ebind (count_pass ch (replicate (numVertices + 1) 0)) (\<lambda>counted.
             let offs = prefix_pass numVertices counted;
                 nxt = take numVertices offs
             in
               ebind (efold (place_step ops vertices ch) [0..<numTriangles]
                        (replicate numTriangles (0, 0, 0), replicate (numTriangles * 3) 0, nxt))
                 (\<lambda>placed.
                   efold sort_step [0..<numVertices]
                     \<lparr>Vertices = vertices, Triangles = fst placed,
                      IncidentTriangleIndices = fst (snd placed),
                      IncidentTriangleOffsets = offs\<rparr>)))"

subsection \<open>The Voronoi diagram\<close>

text \<open>
  The field \<open>Vertices\<close> of \<open>Diagram\<close> is \<open>VoronoiVertices\<close> here (the name
  \<open>Vertices\<close> is the triangulation's). \<open>CellVertices\<close> and \<open>CellOffsets\<close> are the
  triangulation's own arrays, not copies; \<open>CellNeighbors\<close> holds site indices.
\<close>

record Diagram =
  Sites :: "Vector list"
  VoronoiVertices :: "Vector list"
  CellVertices :: "nat list"
  CellNeighbors :: "int list"
  CellOffsets :: "nat list"

definition triangleCircumcenter :: "r3ops \<Rightarrow> Vector \<Rightarrow> Vector \<Rightarrow> Vector \<Rightarrow> Vector" where
  "triangleCircumcenter ops p1 p2 p3 =
     (let v1 = Sub ops p1 p2;
          v2 = Sub ops p2 p3;
          circumcenter = Cross ops v1 v2
      in if Dot ops circumcenter (Add ops (Add ops p1 p2) p3) < 0 then Mul ops circumcenter (- 1)
         else circumcenter)"

text \<open>
  \<open>s2voronoi.go\<close> calls \<open>TriangleVertices\<close>, \<open>IncidentTriangles\<close> and \<open>NextVertex\<close>
  for their value alone. The functions of the package under verification also report an
  error; the model of \<open>NewDiagram\<close> lets such an error end the construction. Lemma
  \<open>NewDiagram_fails_upstream\<close> below shows that none of these errors can arise: the
  construction of the diagram fails only when that of the triangulation does.
\<close>

definition circum_step ::
  "r3ops \<Rightarrow> Triangulation \<Rightarrow> nat \<Rightarrow> Vector list \<Rightarrow> error + Vector list" where
  "circum_step ops dt i vs =
     ebind (TriangleVertices dt (int i)) (\<lambda>ps. case ps of (p0, p1, p2) \<Rightarrow>
       if length vs \<le> i then Inl Panic
       else Inr (vs[i := Normalize ops (triangleCircumcenter ops p0 p1 p2)]))"

definition neighbor_write ::
  "Triangulation \<Rightarrow> nat \<Rightarrow> nat \<Rightarrow> nat list \<Rightarrow> nat \<Rightarrow> int list \<Rightarrow> error + int list" where
  "neighbor_write dt vIdx offset it i cn =
     ebind (at_nat (Triangles dt) (it ! i)) (\<lambda>tri.
     ebind (NextVertex tri (int vIdx)) (\<lambda>w.
       if length cn \<le> offset + i then Inl Panic else Inr (cn[offset + i := w])))"

definition neighbor_step :: "Triangulation \<Rightarrow> nat \<Rightarrow> int list \<Rightarrow> error + int list" where
  "neighbor_step dt vIdx cn =
     ebind (at_nat (IncidentTriangleOffsets dt) vIdx) (\<lambda>offset.
     ebind (IncidentTriangles dt (int vIdx)) (\<lambda>it.
       efold (neighbor_write dt vIdx offset it) [0..<length it] cn))"

definition NewDiagram ::
  "r3ops \<Rightarrow> (Vector list \<Rightarrow> real \<Rightarrow> int list) \<Rightarrow> Vector list \<Rightarrow> real \<Rightarrow> error + Diagram" where
  "NewDiagram ops convexHull sites eps =
     (let eps' = (if eps = 0 then defaultEps else eps) in
      ebind (NewTriangulation ops convexHull sites [WithEps eps']) (\<lambda>dt.
        let numTriangles = length (Triangles dt);
            numNeighbors = length (IncidentTriangleIndices dt)
        in
          ebind (efold (circum_step ops dt) [0..<numTriangles] (replicate numTriangles (Vector 0 0 0)))
            (\<lambda>vs.
          ebind (efold (neighbor_step dt) [0..<length (Vertices dt)] (replicate numNeighbors 0))
            (\<lambda>cn.
              Inr \<lparr>Sites = Vertices dt, VoronoiVertices = vs,
                   CellVertices = IncidentTriangleIndices dt, CellNeighbors = cn,
                   CellOffsets = IncidentTriangleOffsets dt\<rparr>))))"

subsection \<open>Notions the properties are stated with\<close>

text \<open>
  The orientation test in the words of the specification: the cross product of the two
  edge vectors at the first vertex, against the sum of the three vertices, in the
  arithmetic of \<open>ops\<close>. (The code tests the same cross product against the first
  vertex alone.)
\<close>

definition vertex_sum_orientation :: "r3ops \<Rightarrow> Vector \<Rightarrow> Vector \<Rightarrow> Vector \<Rightarrow> real" where
  "vertex_sum_orientation ops p0 p1 p2 =
     Dot ops (Cross ops (Sub ops p1 p0) (Sub ops p2 p0)) (Add ops (Add ops p0 p1) p2)"

text \<open>\<open>PrevVertex\<close> and \<open>NextVertex\<close> of the triangle with a given index.\<close>

definition prev_at :: "triangle list \<Rightarrow> int \<Rightarrow> nat \<Rightarrow> error + int" where
  "prev_at tris v t = ebind (at_nat tris t) (\<lambda>tri. PrevVertex tri v)"

definition next_at :: "triangle list \<Rightarrow> int \<Rightarrow> nat \<Rightarrow> error + int" where
  "next_at tris v t = ebind (at_nat tris t) (\<lambda>tri. NextVertex tri v)"

text \<open>
  Triangle \<open>a\<close> is followed by triangle \<open>b\<close> around site \<open>v\<close>: both exist, both have
  \<open>v\<close> as a vertex, and \<open>NextVertex(Triangles[a], v) == PrevVertex(Triangles[b], v)\<close>.
\<close>

definition links :: "triangle list \<Rightarrow> int \<Rightarrow> nat \<Rightarrow> nat \<Rightarrow> bool" where
  "links tris v a b =
     (case next_at tris v a of Inl e \<Rightarrow> False | Inr w \<Rightarrow> prev_at tris v b = Inr w)"

text \<open>Every two consecutive entries of a site's slice are linked.\<close>

definition fan_ordered :: "triangle list \<Rightarrow> int \<Rightarrow> nat list \<Rightarrow> bool" where
  "fan_ordered tris v xs = list_all (\<lambda>k. links tris v (xs ! (k - 1)) (xs ! k)) [1..<length xs]"

text \<open>
  A closed fan around \<open>v\<close>: a cyclic arrangement in which every triangle is linked to
  the following one, the last one to the first, and no two triangles have the same
  previous vertex at \<open>v\<close>.
\<close>

definition closed_fan :: "triangle list \<Rightarrow> int \<Rightarrow> nat list \<Rightarrow> bool" where
  "closed_fan tris v ys =
     (list_all (\<lambda>k. links tris v (ys ! k) (ys ! (Suc k mod length ys))) [0..<length ys]
      \<and> distinct (map (prev_at tris v) ys))"

text \<open>The slice of a site in the incidence arrays: \<open>indices[offsets[v] : offsets[v+1]]\<close>.\<close>

definition site_slice :: "nat list \<Rightarrow> nat list \<Rightarrow> nat \<Rightarrow> nat list" where
  "site_slice offs inds v = take (offs ! (v + 1) - offs ! v) (drop (offs ! v) inds)"

text \<open>The triangle with index \<open>j\<close> as the hull output lists it.\<close>

definition raw_triangle :: "int list \<Rightarrow> nat \<Rightarrow> triangle" where
  "raw_triangle ch j = (ch ! (j * 3), ch ! (j * 3 + 1), ch ! (j * 3 + 2))"

text \<open>The triangles as the hull output lists them.\<close>

definition raw_triangles :: "int list \<Rightarrow> triangle list" where
  "raw_triangles ch = map (raw_triangle ch) [0..<length ch div 3]"

text \<open>
  The state of the placement pass after \<open>k\<close> incidences: the cursor of a site stands
  after the incidences of that site placed so far, and every position between the start
  of the site's slice and its cursor holds the triangle of one of them.
\<close>

definition placed_upto :: "int list \<Rightarrow> nat list \<Rightarrow> nat \<Rightarrow> nat list \<times> nat list \<Rightarrow> bool" where
  "placed_upto ch offs k st = (case st of (inds, nxt) \<Rightarrow>
     (\<forall>v<length nxt. nxt ! v = offs ! v + count_list (take k ch) (int v))
     \<and> (\<forall>v<length nxt. \<forall>p. offs ! v \<le> p \<and> p < nxt ! v
           \<longrightarrow> (\<exists>k'<k. ch ! k' = int v \<and> inds ! p = k' div 3)))"

text \<open>Every entry of a site's slice is a triangle that has the site as a vertex.\<close>

definition slices_incident :: "Triangulation \<Rightarrow> bool" where
  "slices_incident t =
     (\<forall>v\<in>set [0..<length (Vertices t)].
        \<forall>x\<in>set (site_slice (IncidentTriangleOffsets t) (IncidentTriangleIndices t) v).
          x < length (Triangles t) \<and> in_triangle (int v) (Triangles t ! x))"

text \<open>Every vertex of every triangle is a site.\<close>

definition triangles_in_range :: "Triangulation \<Rightarrow> bool" where
  "triangles_in_range t =
     (\<forall>tri\<in>set (Triangles t). case tri of (t0, t1, t2) \<Rightarrow>
        0 \<le> t0 \<and> t0 < int (length (Vertices t)) \<and> 0 \<le> t1 \<and> t1 < int (length (Vertices t))
        \<and> 0 \<le> t2 \<and> t2 < int (length (Vertices t)))"

subsection \<open>Concrete inputs\<close>

text \<open>Four sites on the unit sphere, the corners of a tetrahedron around the origin.\<close>

definition tetra :: "Vector list" where
  "tetra = [Vector 1 0 0, Vector 0 1 0, Vector 0 0 1, Vector (- 1 / 3) (- 2 / 3) (- 2 / 3)]"

text \<open>
  The four faces of that tetrahedron, as a hull routine may list them: in any order, and
  the second face clockwise.
\<close>

definition tetra_hull :: "Vector list \<Rightarrow> real \<Rightarrow> int list" where
  "tetra_hull vs eps = [0, 1, 2, 0, 3, 2, 1, 3, 2, 0, 3, 1]"

text \<open>What the construction makes of these faces.\<close>

definition tetra_triangulation :: Triangulation where
  "tetra_triangulation =
     \<lparr>Vertices = tetra,
      Triangles = [(0, 1, 2), (0, 2, 3), (1, 3, 2), (0, 3, 1)],
      IncidentTriangleIndices = [0, 3, 1, 0, 2, 3, 0, 1, 2, 1, 3, 2],
      IncidentTriangleOffsets = [0, 3, 6, 9, 12]\<rparr>"

definition tetra_diagram :: Diagram where
  "tetra_diagram =
     \<lparr>Sites = tetra,
      VoronoiVertices =
        [Normalize exact_r3 (Vector 1 1 1), Normalize exact_r3 (Vector (2 / 3) (- 2) (2 / 3)),
         Normalize exact_r3 (Vector (- 7 / 3) (1 / 3) (1 / 3)),
         Normalize exact_r3 (Vector (2 / 3) (2 / 3) (- 2))],
      CellVertices = [0, 3, 1, 0, 2, 3, 0, 1, 2, 1, 3, 2],
      CellNeighbors = [1, 3, 2, 2, 3, 0, 0, 3, 1, 0, 1, 2],
      CellOffsets = [0, 3, 6, 9, 12]\<rparr>"

text \<open>A hull output with three faces only.\<close>

definition short_hull :: "Vector list \<Rightarrow> real \<Rightarrow> int list" where
  "short_hull vs eps = [0, 1, 2, 0, 2, 3, 0, 3, 1]"

text \<open>
  A malformed hull output of the expected length: the face \<open>(0, 1, 2)\<close> three
  times and a face \<open>(0, 1, 3)\<close>. Below it, what the construction returns.
\<close>

definition repeat_hull :: "Vector list \<Rightarrow> real \<Rightarrow> int list" where
  "repeat_hull vs eps = [0, 1, 2, 0, 1, 2, 0, 1, 2, 0, 1, 3]"

definition repeat_triangulation :: Triangulation where
  "repeat_triangulation =
     \<lparr>Vertices = tetra,
      Triangles = [(0, 1, 2), (0, 1, 2), (0, 1, 2), (0, 3, 1)],
      IncidentTriangleIndices = [0, 3, 2, 1, 0, 1, 2, 3, 0, 1, 2, 3],
      IncidentTriangleOffsets = [0, 4, 8, 11, 12]\<rparr>"

text \<open>
  A hull output of the expected length whose third triple repeats a site: \<open>(2, 0, 0)\<close>.
  Below it, what the two constructions return.
\<close>

definition degenerate_hull :: "Vector list \<Rightarrow> real \<Rightarrow> int list" where
  "degenerate_hull vs eps = [0, 1, 2, 0, 3, 2, 2, 0, 0, 0, 3, 1]"

definition degenerate_triangulation :: Triangulation where
  "degenerate_triangulation =
     \<lparr>Vertices = tetra,
      Triangles = [(0, 1, 2), (0, 2, 3), (2, 0, 0), (0, 3, 1)],
      IncidentTriangleIndices = [0, 3, 1, 2, 2, 0, 3, 0, 2, 1, 1, 3],
      IncidentTriangleOffsets = [0, 5, 7, 10, 12]\<rparr>"

definition degenerate_diagram :: Diagram where
  "degenerate_diagram =
     \<lparr>Sites = tetra,
      VoronoiVertices =
        [Normalize exact_r3 (Vector 1 1 1), Normalize exact_r3 (Vector (2 / 3) (- 2) (2 / 3)),
         Vector 0 0 0, Normalize exact_r3 (Vector (2 / 3) (2 / 3) (- 2))],
      CellVertices = [0, 3, 1, 2, 2, 0, 3, 0, 2, 1, 1, 3],
      CellNeighbors = [1, 3, 2, 0, 0, 2, 0, 0, 0, 3, 0, 1],
      CellOffsets = [0, 5, 7, 10, 12]\<rparr>"

text \<open>
  Four sites on the unit sphere that lie in one hemisphere (in one octant, even), and
  the four faces of their tetrahedron, each listed counter-clockwise seen from outside
  the tetrahedron. The origin lies outside the tetrahedron, beyond the first face. Below
  them, what the construction returns.
\<close>

definition octant :: "Vector list" where
  "octant = [Vector 1 0 0, Vector 0 1 0, Vector 0 0 1, Vector (1 / 3) (2 / 3) (2 / 3)]"

definition octant_hull :: "Vector list \<Rightarrow> real \<Rightarrow> int list" where
  "octant_hull vs eps = [0, 2, 1, 0, 1, 3, 0, 3, 2, 1, 2, 3]"

definition octant_triangulation :: Triangulation where
  "octant_triangulation =
     \<lparr>Vertices = octant,
      Triangles = [(0, 1, 2), (0, 1, 3), (0, 3, 2), (1, 2, 3)],
      IncidentTriangleIndices = [0, 1, 2, 0, 1, 3, 0, 2, 3, 1, 2, 3],
      IncidentTriangleOffsets = [0, 3, 6, 9, 12]\<rparr>"

text \<open>
  Four sites given by decimal numbers, each coordinate the \<open>float64\<close> nearest to the
  decimal: the first three lie on a great circle (in decimals; the rounded third is a
  little off it), the fourth is a pole. The hull output lists the four faces of their
  tetrahedron counter-clockwise seen from outside the tetrahedron. Below them, what the
  construction returns in \<open>float64\<close> arithmetic.
\<close>

definition circle_sites :: "Vector list" where
  "circle_sites =
     [Vector 1 0 0,
      Vector 0 (fl64 (6 / 10)) (fl64 (8 / 10)),
      Vector (fl64 (- 6 / 10)) (fl64 (48 / 100)) (fl64 (64 / 100)),
      Vector 0 0 (- 1)]"

definition circle_hull :: "Vector list \<Rightarrow> real \<Rightarrow> int list" where
  "circle_hull vs eps = [0, 1, 2, 0, 3, 1, 0, 2, 3, 1, 3, 2]"

definition circle_triangulation :: Triangulation where
  "circle_triangulation =
     \<lparr>Vertices = circle_sites,
      Triangles = [(0, 1, 2), (0, 3, 1), (0, 3, 2), (1, 3, 2)],
      IncidentTriangleIndices = [0, 1, 2, 0, 3, 1, 0, 2, 3, 1, 3, 2],
      IncidentTriangleOffsets = [0, 3, 6, 9, 12]\<rparr>"

section \<open>Properties\<close>

subsection \<open>Sequencing and loops\<close>

lemma ebind_Inr [simp]: "ebind (Inr x) f = f x"
  by (simp add: ebind_def)

lemma ebind_Inl [simp]: "ebind (Inl e) f = Inl e"
  by (simp add: ebind_def)

lemma ebind_eq_Inr: "ebind m f = Inr y \<longleftrightarrow> (\<exists>x. m = Inr x \<and> f x = Inr y)"
  by (cases m) simp_all

lemma ebind_eq_Inl: "ebind m f = Inl e \<longleftrightarrow> m = Inl e \<or> (\<exists>x. m = Inr x \<and> f x = Inl e)"
  by (cases m) simp_all

lemma efold_append: "efold f (xs @ ys) s = ebind (efold f xs s) (efold f ys)"
  by (induction xs arbitrary: s) (auto split: sum.splits)

lemma efold_single [simp]: "efold f [x] s = f x s"
  by (simp split: sum.splits)

lemma efold_upt_Suc: "efold f [0..<Suc n] s = ebind (efold f [0..<n] s) (f n)"
proof -
  have "efold f [n] = f n"
    by (rule ext) (simp split: sum.splits)
  then show ?thesis
    by (simp add: efold_append)
qed

text \<open>The invariant rule of a \<open>for i := range n\<close> loop that ran to its end.\<close>

lemma efold_invariant:
  assumes "efold f [0..<n] s = Inr s'"
    and "I 0 s"
    and "\<And>i a b. i < n \<Longrightarrow> I i a \<Longrightarrow> f i a = Inr b \<Longrightarrow> I (Suc i) b"
  shows "I n s'"
  using assms
proof (induction n arbitrary: s')
  case 0
  then show ?case by simp
next
  case (Suc n)
  from Suc.prems(1) obtain a where a: "efold f [0..<n] s = Inr a" and b: "f n a = Inr s'"
    by (auto simp: efold_upt_Suc ebind_eq_Inr simp del: upt_Suc)
  have "I n a"
    using Suc.IH [OF a Suc.prems(2)] Suc.prems(3) by simp
  then show ?case
    using Suc.prems(3) [of n a s'] b by simp
qed

subsection \<open>PrevVertex and NextVertex\<close>

text \<open>
  Claim C10, as amended. For every triangle \<open>t\<close> and every site index \<open>v\<close> that is
  one of its three vertices, \<open>NextVertex(t, v)\<close> and \<open>PrevVertex(t, v)\<close> both
  succeed; when the three vertices of \<open>t\<close> are pairwise distinct the two are
  mutually inverse: \<open>PrevVertex(t, NextVertex(t, v)) == v\<close> and
  \<open>NextVertex(t, PrevVertex(t, v)) == v\<close>. For every triangle \<open>t\<close> and every
  \<open>v\<close> that is not among its vertices both return an error.
\<close>

theorem PrevVertex_NextVertex_inverse:
  "(in_triangle v t \<longrightarrow>
      (\<exists>n p. NextVertex t v = Inr n \<and> PrevVertex t v = Inr p
         \<and> (distinct_triangle t \<longrightarrow> PrevVertex t n = Inr v \<and> NextVertex t p = Inr v)))
   \<and> (\<not> in_triangle v t \<longrightarrow>
        NextVertex t v = Inl VertexNotInTriangle \<and> PrevVertex t v = Inl VertexNotInTriangle)"
  by (cases t) (auto simp: distinct_triangle_def in_triangle_def NextVertex_def PrevVertex_def)

theorem PrevVertex_NextVertex_inverse_witness:
  "in_triangle 2 (1, 2, 3) \<and> distinct_triangle (1, 2, 3)
   \<and> NextVertex (1, 2, 3) 2 = Inr 3 \<and> PrevVertex (1, 2, 3) 3 = Inr 2
   \<and> PrevVertex (1, 2, 3) 2 = Inr 1 \<and> NextVertex (1, 2, 3) 1 = Inr 2
   \<and> \<not> in_triangle 7 (1, 2, 3) \<and> NextVertex (1, 2, 3) 7 = Inl VertexNotInTriangle
   \<and> PrevVertex (1, 2, 3) 7 = Inl VertexNotInTriangle
   \<and> in_triangle 1 (0, 0, 1) \<and> \<not> distinct_triangle (0, 0, 1)
   \<and> NextVertex (0, 0, 1) 1 = Inr 0 \<and> PrevVertex (0, 0, 1) 1 = Inr 0
   \<and> \<not> in_triangle 7 (0, 0, 1) \<and> NextVertex (0, 0, 1) 7 = Inl VertexNotInTriangle
   \<and> PrevVertex (0, 0, 1) 7 = Inl VertexNotInTriangle"
  using PrevVertex_NextVertex_inverse [of 2 "(1, 2, 3)"]
    PrevVertex_NextVertex_inverse [of 7 "(1, 2, 3)"]
    PrevVertex_NextVertex_inverse [of 1 "(0, 0, 1)"]
    PrevVertex_NextVertex_inverse [of 7 "(0, 0, 1)"]
  by (simp add: distinct_triangle_def in_triangle_def NextVertex_def PrevVertex_def)

text \<open>
  The claim as stated, for every triangle, fails when a vertex is repeated: in the
  triangle \<open>(0, 0, 1)\<close> the \<open>switch\<close> of both functions stops at the first entry, so
  \<open>NextVertex\<close> at \<open>0\<close> is \<open>0\<close>, and \<open>PrevVertex\<close> at that value is \<open>1\<close>, not \<open>0\<close>.
\<close>

theorem PrevVertex_NextVertex_repeated_vertex:
  "in_triangle 0 (0, 0, 1) \<and> NextVertex (0, 0, 1) 0 = Inr 0 \<and> PrevVertex (0, 0, 1) 0 = Inr 1"
  by (simp add: in_triangle_def NextVertex_def PrevVertex_def)

subsection \<open>The vector operations in exact arithmetic\<close>

lemma exact_r3_simps:
  "Add exact_r3 v ov = Vector (X v + X ov) (Y v + Y ov) (Z v + Z ov)"
  "Sub exact_r3 v ov = Vector (X v - X ov) (Y v - Y ov) (Z v - Z ov)"
  "Mul exact_r3 v m = Vector (m * X v) (m * Y v) (m * Z v)"
  "Dot exact_r3 v ov = X v * X ov + Y v * Y ov + Z v * Z ov"
  "Cross exact_r3 v ov =
     Vector (Y v * Z ov - Z v * Y ov) (Z v * X ov - X v * Z ov) (X v * Y ov - Y v * X ov)"
  by (simp_all add: exact_r3_def r3_rounded_def)

lemma Normalize_exact:
  "Normalize exact_r3 v =
     (if Dot exact_r3 v v = 0 then Vector 0 0 0 else Mul exact_r3 v (1 / sqrt (Dot exact_r3 v v)))"
  by (simp add: exact_r3_def r3_rounded_def Sqrt_def Let_def)

lemma vertex_sum_orientation_eq:
  "vertex_sum_orientation exact_r3 p0 p1 p2
     = 3 * Dot exact_r3 (Cross exact_r3 (Sub exact_r3 p1 p0) (Sub exact_r3 p2 p0)) p0"
  by (simp add: vertex_sum_orientation_def exact_r3_simps algebra_simps)

lemma vertex_sum_orientation_swap:
  "vertex_sum_orientation exact_r3 p0 p2 p1 = - vertex_sum_orientation exact_r3 p0 p1 p2"
  by (simp add: vertex_sum_orientation_def exact_r3_simps algebra_simps)

subsection \<open>The float64 rounding\<close>

text \<open>
  \<open>exponent\<close> is the binary exponent, and \<open>round_even\<close> rounds to a nearest
  integer, to the even one of two.
\<close>

lemma pow2_Suc: "pow2 (e + 1) = 2 * pow2 e"
proof (cases "0 \<le> e")
  case True
  then show ?thesis
    by (simp add: pow2_def nat_add_distrib)
next
  case False
  then have "nat (- e) = Suc (nat (- (e + 1)))"
    by simp
  with False show ?thesis
    by (simp add: pow2_def)
qed

lemma exponent_bounds:
  assumes "x \<noteq> 0"
  shows "pow2 (exponent x) \<le> \<bar>x\<bar> \<and> \<bar>x\<bar> < pow2 (exponent x + 1)"
proof (cases "1 \<le> \<bar>x\<bar>")
  case True
  let ?n = "\<lfloor>\<bar>x\<bar>\<rfloor>"
  from True have n: "0 < ?n"
    by simp
  from bitlen_bounds [OF n] have lo: "2 ^ nat (bitlen ?n - 1) \<le> ?n" and hi: "?n < 2 ^ nat (bitlen ?n)"
    by simp_all
  from n have b: "1 \<le> bitlen ?n"
    by (simp add: bitlen_alt_def)
  have e: "exponent x = bitlen ?n - 1"
    using True by (simp add: exponent_def)
  from lo have "real_of_int (2 ^ nat (bitlen ?n - 1)) \<le> real_of_int ?n"
    by (simp only: of_int_le_iff)
  then have "2 ^ nat (bitlen ?n - 1) \<le> \<bar>x\<bar>"
    by (simp add: le_floor_iff)
  moreover from hi have "?n + 1 \<le> 2 ^ nat (bitlen ?n)"
    by simp
  then have "real_of_int (?n + 1) \<le> real_of_int (2 ^ nat (bitlen ?n))"
    by (simp only: of_int_le_iff)
  then have "\<bar>x\<bar> < 2 ^ nat (bitlen ?n)"
    by (simp add: floor_less_iff) linarith
  ultimately show ?thesis
    using b by (simp add: e pow2_def)
next
  case False
  define a where "a = \<bar>x\<bar>"
  from False assms have a: "0 < a" "a < 1"
    by (simp_all add: a_def)
  define y where "y = 1 / a"
  from a have y: "1 < y"
    by (simp add: y_def)
  let ?m = "\<lfloor>y\<rfloor>"
  from y have m: "0 < ?m"
    by simp
  define k where "k = bitlen ?m - 1"
  from m have k0: "0 \<le> k"
    by (simp add: k_def bitlen_alt_def)
  from bitlen_bounds [OF m] have lo: "2 ^ nat k \<le> ?m" and hi: "?m < 2 ^ nat (k + 1)"
    by (simp_all add: k_def)
  from lo have "real_of_int (2 ^ nat k) \<le> real_of_int ?m"
    by (simp only: of_int_le_iff)
  then have ylo: "2 ^ nat k \<le> y"
    by (simp add: le_floor_iff)
  from hi have "?m + 1 \<le> 2 ^ nat (k + 1)"
    by simp
  then have "real_of_int (?m + 1) \<le> real_of_int (2 ^ nat (k + 1))"
    by (simp only: of_int_le_iff)
  then have yhi: "y < 2 ^ nat (k + 1)"
    by (simp add: floor_less_iff) linarith
  have ay: "a = 1 / y"
    using a by (simp add: y_def)
  have pk: "pow2 (- k) = 1 / 2 ^ nat k"
    using k0 by (cases "k = 0") (simp_all add: pow2_def)
  have pk1: "pow2 (- k - 1) = 1 / 2 ^ nat (k + 1)"
    using k0 by (simp add: pow2_def)
  have ex: "exponent x = (if y = 2 ^ nat k then - k else - k - 1)"
    using False by (simp add: exponent_def a_def y_def k_def Let_def)
  show ?thesis
  proof (cases "y = 2 ^ nat k")
    case True
    with ex have e: "exponent x = - k" by simp
    have "pow2 (- k + 1) = 2 * pow2 (- k)"
      by (rule pow2_Suc)
    moreover have "0 < pow2 (- k)"
      by (simp add: pk)
    then have "pow2 (- k) < 2 * pow2 (- k)"
      by simp
    ultimately have "pow2 (- k) < pow2 (- k + 1)"
      by simp
    moreover from True ay pk have "a = pow2 (- k)"
      by simp
    ultimately show ?thesis
      by (simp add: e a_def [symmetric])
  next
    case F: False
    with ex have e: "exponent x = - k - 1" by simp
    from F ylo have ylo': "2 ^ nat k < y" by simp
    have "1 / 2 ^ nat (k + 1) < 1 / y"
      using yhi y by (simp add: frac_less2)
    moreover have "1 / y < 1 / 2 ^ nat k"
      using ylo' by (simp add: frac_less2)
    ultimately show ?thesis
      using ay pk pk1 by (simp add: e a_def [symmetric])
  qed
qed

lemma round_even_nearest: "\<bar>real_of_int (round_even q) - q\<bar> \<le> 1 / 2"
  by (simp add: round_even_def Let_def)

lemma round_even_tie: "q - real_of_int \<lfloor>q\<rfloor> = 1 / 2 \<Longrightarrow> even (round_even q)"
  by (simp add: round_even_def Let_def)

text \<open>For evaluation the rounding is unfolded at rational numbers only.\<close>

lemma fl64_code [code]:
  "fl64 (Ratreal r) =
     (if Ratreal r = 0 then 0
      else let e = max (exponent (Ratreal r)) (- 1022); ulp = pow2 (e - 52)
           in of_int (round_even (Ratreal r / ulp)) * ulp)"
  by (simp only: fl64_def)

subsection \<open>The incidence sort of one site\<close>

declare find_match.simps [simp del] sort_from.simps [simp del]

lemma find_match_Some:
  "find_match v tris inc nxt j = Inr (Some q) \<Longrightarrow>
     j \<le> q \<and> q < length inc \<and> prev_at tris v (inc ! q) = Inr nxt"
proof (induction v tris inc nxt j rule: find_match.induct)
  case (1 vIdx tris incidentTris nxt j)
  show ?case
  proof (cases "j < length incidentTris")
    case False
    with "1.prems" show ?thesis
      by (simp add: find_match.simps [of vIdx tris incidentTris nxt j])
  next
    case True
    from "1.prems" True obtain t prv where t: "at_nat tris (incidentTris ! j) = Inr t"
      and prv: "PrevVertex t vIdx = Inr prv"
      by (auto simp: find_match.simps [of vIdx tris incidentTris nxt j] split: sum.splits)
    show ?thesis
    proof (cases "nxt = prv")
      case True
      have "find_match vIdx tris incidentTris nxt j = Inr (Some j)"
        using True t prv \<open>j < length incidentTris\<close>
        by (subst find_match.simps) simp
      with "1.prems" have "q = j" by simp
      with t prv True \<open>j < length incidentTris\<close> show ?thesis
        by (simp add: prev_at_def)
    next
      case False
      with "1.prems" \<open>j < length incidentTris\<close> t prv
      have "find_match vIdx tris incidentTris nxt (j + 1) = Inr (Some q)"
        by (simp add: find_match.simps [of vIdx tris incidentTris nxt j])
      from "1.IH" [OF \<open>j < length incidentTris\<close> t prv False this] show ?thesis
        by simp
    qed
  qed
qed

lemma find_match_None:
  "find_match v tris inc nxt j = Inr None \<Longrightarrow> j \<le> p \<Longrightarrow> p < length inc \<Longrightarrow>
     prev_at tris v (inc ! p) \<noteq> Inr nxt"
proof (induction v tris inc nxt j rule: find_match.induct)
  case (1 vIdx tris incidentTris nxt j)
  from "1.prems" have lt: "j < length incidentTris"
    by simp
  from "1.prems" lt obtain t prv where t: "at_nat tris (incidentTris ! j) = Inr t"
    and prv: "PrevVertex t vIdx = Inr prv"
    by (auto simp: find_match.simps [of vIdx tris incidentTris nxt j] split: sum.splits)
  from "1.prems" lt t prv have ne: "nxt \<noteq> prv"
    by (auto simp: find_match.simps [of vIdx tris incidentTris nxt j])
  with "1.prems" lt t prv
  have rest: "find_match vIdx tris incidentTris nxt (j + 1) = Inr None"
    by (simp add: find_match.simps [of vIdx tris incidentTris nxt j])
  show ?case
  proof (cases "p = j")
    case True
    with t prv ne show ?thesis
      by (auto simp: prev_at_def)
  next
    case False
    with "1.prems" have "j + 1 \<le> p" by simp
    from "1.IH" [OF lt t prv ne rest this "1.prems"(3)] show ?thesis .
  qed
qed

lemma find_match_error:
  "find_match v tris inc nxt j = Inl e \<Longrightarrow> e = Panic"
proof (induction v tris inc nxt j rule: find_match.induct)
  case (1 vIdx tris incidentTris nxt j)
  then show ?case
    by (subst (asm) find_match.simps)
      (auto simp: at_nat_def split: if_splits sum.splits)
qed

lemma sort_from_done: "length inc \<le> i \<Longrightarrow> sort_from v tris i inc = Inr inc"
  by (subst sort_from.simps) simp

lemma sort_from_mset:
  "sort_from v tris i inc = Inr res \<Longrightarrow> mset res = mset inc"
proof (induction v tris i inc arbitrary: res rule: sort_from.induct)
  case (1 vIdx tris i incidentTris)
  show ?case
  proof (cases "i < length incidentTris")
    case False
    with "1.prems" show ?thesis
      by (simp add: sort_from.simps [of vIdx tris i incidentTris])
  next
    case True
    from "1.prems" True obtain t nxt r where t: "at_nat tris (incidentTris ! (i - 1)) = Inr t"
      and nxt: "NextVertex t vIdx = Inr nxt"
      and r: "find_match vIdx tris incidentTris nxt (i + 1) = Inr r"
      by (auto simp: sort_from.simps [of vIdx tris i incidentTris] split: sum.splits)
    show ?thesis
    proof (cases r)
      case None
      with "1.prems" True t nxt r
      have "sort_from vIdx tris (i + 1) incidentTris = Inr res"
        by (simp add: sort_from.simps [of vIdx tris i incidentTris])
      from "1.IH"(1) [OF True t nxt r None this] show ?thesis .
    next
      case (Some j)
      with "1.prems" True t nxt r
      have "sort_from vIdx tris (i + 1) (incidentTris[i := incidentTris ! j, j := incidentTris ! i]) = Inr res"
        by (simp add: sort_from.simps [of vIdx tris i incidentTris])
      from "1.IH"(2) [OF True t nxt r Some this]
      have "mset res = mset (incidentTris[i := incidentTris ! j, j := incidentTris ! i])" .
      moreover from find_match_Some [OF r [unfolded Some]] have "j < length incidentTris"
        by simp
      ultimately show ?thesis
        using True by (simp add: mset_swap)
    qed
  qed
qed

lemma sort_from_length:
  "sort_from v tris i inc = Inr res \<Longrightarrow> length res = length inc"
  using sort_from_mset [of v tris i inc res] by (metis size_mset)

lemma fan_ordered_iff:
  "fan_ordered tris v xs \<longleftrightarrow> (\<forall>k. 0 < k \<and> k < length xs \<longrightarrow> links tris v (xs ! (k - 1)) (xs ! k))"
  by (auto simp: fan_ordered_def list_all_iff)

lemma closed_fan_iff:
  "closed_fan tris v ys \<longleftrightarrow>
     (\<forall>k<length ys. links tris v (ys ! k) (ys ! (Suc k mod length ys)))
     \<and> distinct (map (prev_at tris v) ys)"
  by (auto simp: closed_fan_def list_all_iff)

lemma mset_drop_eq:
  assumes "mset xs = mset ys" and "take i xs = take i ys"
  shows "mset (drop i xs) = mset (drop i ys)"
proof -
  have "mset (take i xs) + mset (drop i xs) = mset (take i ys) + mset (drop i ys)"
    using assms(1) by (metis append_take_drop_id mset_append)
  with assms(2) show ?thesis by simp
qed

lemma in_drop_nth:
  assumes "x \<in> set (drop i xs)"
  shows "\<exists>p. i \<le> p \<and> p < length xs \<and> xs ! p = x"
proof -
  from assms obtain m where "m < length (drop i xs)" and "drop i xs ! m = x"
    by (auto simp: in_set_conv_nth)
  then have "i \<le> i + m \<and> i + m < length xs \<and> xs ! (i + m) = x"
    by auto
  then show ?thesis by blast
qed

lemma sort_from_chain:
  assumes "sort_from v tris i inc = Inr res"
    and "0 < i"
    and "mset inc = mset ys"
    and "take i inc = take i ys"
    and "fan_ordered tris v ys"
    and "distinct (map (prev_at tris v) ys)"
  shows "res = ys"
  using assms
proof (induction v tris i inc arbitrary: res rule: sort_from.induct)
  case (1 vIdx tris i incidentTris)
  have len: "length incidentTris = length ys"
    using "1.prems"(3) by (metis size_mset)
  show ?case
  proof (cases "i < length incidentTris")
    case False
    with "1.prems"(1) have "res = incidentTris"
      by (simp add: sort_from.simps [of vIdx tris i incidentTris])
    moreover from False len "1.prems"(4) have "incidentTris = ys"
      by simp
    ultimately show ?thesis by simp
  next
    case True
    from "1.prems"(1) True obtain t nxt r where t: "at_nat tris (incidentTris ! (i - 1)) = Inr t"
      and nxt: "NextVertex t vIdx = Inr nxt"
      and r: "find_match vIdx tris incidentTris nxt (i + 1) = Inr r"
      by (auto simp: sort_from.simps [of vIdx tris i incidentTris] split: sum.splits)
    have "incidentTris ! (i - 1) = take i incidentTris ! (i - 1)"
      using "1.prems"(2) by simp
    also have "\<dots> = ys ! (i - 1)"
      using "1.prems"(2,4) by simp
    finally have prev_eq: "incidentTris ! (i - 1) = ys ! (i - 1)" .
    with t nxt have "next_at tris vIdx (ys ! (i - 1)) = Inr nxt"
      by (simp add: next_at_def)
    moreover have "links tris vIdx (ys ! (i - 1)) (ys ! i)"
      using "1.prems"(5) "1.prems"(2) True len by (simp add: fan_ordered_iff)
    ultimately have target: "prev_at tris vIdx (ys ! i) = Inr nxt"
      by (simp add: links_def)
    have "ys ! i \<in> set (drop i ys)"
      using True len by (metis Cons_nth_drop_Suc list.set_intros(1))
    also have "set (drop i ys) = set (drop i incidentTris)"
      using mset_drop_eq [OF "1.prems"(3,4)] by (metis set_mset_mset)
    finally have "ys ! i \<in> set (drop i incidentTris)" .
    from in_drop_nth [OF this]
    obtain p where p: "i \<le> p" "p < length incidentTris" "incidentTris ! p = ys ! i"
      by blast
    have inj: "inj_on (prev_at tris vIdx) (set ys)"
      using "1.prems"(6) by (simp add: distinct_map)
    have set_eq: "set incidentTris = set ys"
      using "1.prems"(3) by (metis set_mset_mset)
    show ?thesis
    proof (cases r)
      case None
      have "p = i"
      proof (rule ccontr)
        assume "p \<noteq> i"
        with p have "i + 1 \<le> p" by simp
        from find_match_None [OF r [unfolded None] this p(2)] p(3) target
        show False by simp
      qed
      with p(3) have "incidentTris ! i = ys ! i" by simp
      with "1.prems"(4) True len have tk: "take (i + 1) incidentTris = take (i + 1) ys"
        by (simp add: take_Suc_conv_app_nth)
      from "1.prems"(1) True t nxt r None
      have "sort_from vIdx tris (i + 1) incidentTris = Inr res"
        by (simp add: sort_from.simps [of vIdx tris i incidentTris])
      from "1.IH"(1) [OF True t nxt r None this _ "1.prems"(3) tk "1.prems"(5,6)] show ?thesis
        by simp
    next
      case (Some q)
      from find_match_Some [OF r [unfolded Some]]
      have q: "i + 1 \<le> q" "q < length incidentTris" "prev_at tris vIdx (incidentTris ! q) = Inr nxt"
        by simp_all
      have "incidentTris ! q \<in> set ys"
        using q(2) set_eq by (metis nth_mem)
      moreover have "ys ! i \<in> set ys"
        using True len by simp
      ultimately have eq: "incidentTris ! q = ys ! i"
        using inj q(3) target by (simp add: inj_on_def)
      let ?inc = "incidentTris[i := incidentTris ! q, q := incidentTris ! i]"
      have at_i: "?inc ! i = ys ! i"
        using q(1) True eq by simp
      have "take i ?inc = take i ys"
        using q(1) "1.prems"(4) by simp
      with at_i True len have tk: "take (i + 1) ?inc = take (i + 1) ys"
        by (simp add: take_Suc_conv_app_nth)
      have ms: "mset ?inc = mset ys"
        using True q(2) "1.prems"(3) by (simp add: mset_swap)
      from "1.prems"(1) True t nxt r Some
      have "sort_from vIdx tris (i + 1) ?inc = Inr res"
        by (simp add: sort_from.simps [of vIdx tris i incidentTris])
      from "1.IH"(2) [OF True t nxt r Some this _ ms tk "1.prems"(5,6)] show ?thesis
        by simp
    qed
  qed
qed

lemma mset_rotate_eq: "mset (rotate n xs) = mset xs"
proof -
  let ?k = "n mod length xs"
  have "mset (rotate n xs) = mset (drop ?k xs) + mset (take ?k xs)"
    by (simp add: rotate_drop_take)
  also have "\<dots> = mset (take ?k xs @ drop ?k xs)"
    by (simp only: mset_append add.commute)
  also have "\<dots> = mset xs"
    by (simp only: append_take_drop_id)
  finally show ?thesis .
qed

lemma closed_fan_rotate:
  assumes "closed_fan tris v ys"
  shows "closed_fan tris v (rotate n ys)"
proof -
  let ?len = "length ys"
  have "links tris v (rotate n ys ! k) (rotate n ys ! (Suc k mod ?len))" if "k < ?len" for k
  proof -
    from that have pos: "0 < ?len" by auto
    have a: "rotate n ys ! k = ys ! ((n + k) mod ?len)"
      using that by (simp add: nth_rotate)
    have "Suc k mod ?len < ?len"
      using pos by simp
    then have "rotate n ys ! (Suc k mod ?len) = ys ! ((n + Suc k mod ?len) mod ?len)"
      by (simp add: nth_rotate)
    also have "(n + Suc k mod ?len) mod ?len = Suc ((n + k) mod ?len) mod ?len"
      by (metis add_Suc_right mod_Suc_eq mod_add_right_eq)
    finally have b: "rotate n ys ! (Suc k mod ?len) = ys ! (Suc ((n + k) mod ?len) mod ?len)" .
    have "(n + k) mod ?len < ?len"
      using pos by simp
    with assms have "links tris v (ys ! ((n + k) mod ?len)) (ys ! (Suc ((n + k) mod ?len) mod ?len))"
      by (simp add: closed_fan_iff)
    with a b show ?thesis by simp
  qed
  moreover have "distinct (map (prev_at tris v) (rotate n ys))"
    using assms by (simp add: closed_fan_iff rotate_map [symmetric])
  ultimately show ?thesis
    by (simp add: closed_fan_iff)
qed

lemma closed_fan_ordered:
  assumes "closed_fan tris v ys"
  shows "fan_ordered tris v ys"
proof -
  have "links tris v (ys ! (k - 1)) (ys ! k)" if "0 < k" and "k < length ys" for k
  proof -
    from that have "k - 1 < length ys" and "Suc (k - 1) mod length ys = k"
      by simp_all
    with assms show ?thesis
      by (metis closed_fan_iff)
  qed
  then show ?thesis
    by (simp add: fan_ordered_iff)
qed

lemma sort_closed_fan:
  assumes "sortIncidentTriangleIndicesCCW v raw tris = Inr res"
    and "mset ys = mset raw"
    and "closed_fan tris v ys"
  shows "\<exists>n. res = rotate n ys"
proof (cases raw)
  case Nil
  with assms(1) have "res = []"
    by (simp add: sortIncidentTriangleIndicesCCW_def sort_from_done)
  moreover from Nil assms(2) have "ys = []" by simp
  ultimately show ?thesis by simp
next
  case (Cons a rest)
  with assms(2) have "a \<in> set ys"
    by (metis list.set_intros(1) set_mset_mset)
  then obtain n where n: "n < length ys" "ys ! n = a"
    by (auto simp: in_set_conv_nth)
  let ?ys = "rotate n ys"
  have pos: "0 < length ys"
    using n by auto
  have "?ys ! 0 = a"
    using n nth_rotate [OF pos, of n] by simp
  moreover have "0 < length ?ys"
    using pos by simp
  ultimately have "take 1 ?ys = [a]"
    by (cases ?ys) simp_all
  with Cons have tk: "take 1 raw = take 1 ?ys"
    by simp
  have ms: "mset raw = mset ?ys"
    using assms(2) by (simp add: mset_rotate_eq)
  have cf: "closed_fan tris v ?ys"
    using assms(3) by (rule closed_fan_rotate)
  from assms(1) have "sort_from v tris 1 raw = Inr res"
    by (simp add: sortIncidentTriangleIndicesCCW_def)
  from sort_from_chain [OF this _ ms tk closed_fan_ordered [OF cf]] cf
  have "res = ?ys"
    by (simp add: closed_fan_iff)
  then show ?thesis by blast
qed

lemma closed_fan_cong:
  assumes "\<And>j. j \<in> set ys \<Longrightarrow> at_nat tris j = at_nat tris' j"
  shows "closed_fan tris v ys \<longleftrightarrow> closed_fan tris' v ys"
proof -
  have p: "prev_at tris v j = prev_at tris' v j" if "j \<in> set ys" for j
    using assms [OF that] by (simp add: prev_at_def)
  have n: "next_at tris v j = next_at tris' v j" if "j \<in> set ys" for j
    using assms [OF that] by (simp add: next_at_def)
  have l: "links tris v a b = links tris' v a b" if "a \<in> set ys" "b \<in> set ys" for a b
    using p [OF that(2)] n [OF that(1)] by (simp add: links_def split: sum.splits)
  have "links tris v (ys ! k) (ys ! (Suc k mod length ys))
      = links tris' v (ys ! k) (ys ! (Suc k mod length ys))" if "k < length ys" for k
  proof -
    from that have "0 < length ys"
      by auto
    then have "Suc k mod length ys < length ys"
      by simp
    with that show ?thesis
      by (intro l) simp_all
  qed
  then have "(\<forall>k<length ys. links tris v (ys ! k) (ys ! (Suc k mod length ys)))
      \<longleftrightarrow> (\<forall>k<length ys. links tris' v (ys ! k) (ys ! (Suc k mod length ys)))"
    by simp
  moreover have "map (prev_at tris v) ys = map (prev_at tris' v) ys"
    using p by simp
  ultimately show ?thesis
    by (simp only: closed_fan_iff)
qed

lemma closed_fan_at:
  assumes "closed_fan tris v ys" and "j \<in> set ys"
  shows "j < length tris"
proof -
  from assms(2) obtain k where k: "k < length ys" "ys ! k = j"
    by (auto simp: in_set_conv_nth)
  with assms(1) have "links tris v j (ys ! (Suc k mod length ys))"
    by (auto simp: closed_fan_iff)
  then show ?thesis
    by (auto simp: links_def next_at_def at_nat_def ebind_def split: sum.splits if_splits)
qed

subsection \<open>The passes of NewTriangulation\<close>

lemma at_int_Inr: "at_int xs i = Inr x \<longleftrightarrow> 0 \<le> i \<and> i < int (length xs) \<and> x = xs ! nat i"
  by (auto simp: at_int_def)

lemma at_nat_Inr: "at_nat xs i = Inr x \<longleftrightarrow> i < length xs \<and> x = xs ! i"
  by (auto simp: at_nat_def)

lemma slice_Inr:
  "slice xs a b = Inr ys \<longleftrightarrow> a \<le> b \<and> b \<le> length xs \<and> ys = take (b - a) (drop a xs)"
  by (auto simp: slice_def)

lemma place1_Inr:
  assumes "place1 i v (inds, nxt) = Inr (inds', nxt')"
  shows "length inds' = length inds \<and> length nxt' = length nxt \<and> 0 \<le> v \<and> v < int (length nxt)"
  using assms by (auto simp: place1_def ebind_eq_Inr at_int_Inr split: if_splits)

lemma place_step_Inr:
  assumes "place_step ops vs ch i (tris, inds, nxt) = Inr (tris', inds', nxt')"
  shows "length tris' = length tris \<and> length inds' = length inds \<and> length nxt' = length nxt
         \<and> (\<forall>j<3. 0 \<le> ch ! (i * 3 + j) \<and> ch ! (i * 3 + j) < int (length nxt))"
proof -
  from assms obtain st1 st2 st3 t where
    s1: "place1 i (ch ! (i * 3)) (inds, nxt) = Inr st1" and
    s2: "place1 i (ch ! (i * 3 + 1)) st1 = Inr st2" and
    s3: "place1 i (ch ! (i * 3 + 2)) st2 = Inr st3" and
    res: "tris' = tris[i := t]" "inds' = fst st3" "nxt' = snd st3"
    by (auto simp: place_step_def ebind_eq_Inr Let_def)
  obtain i1 n1 where st1: "st1 = (i1, n1)" by (cases st1)
  obtain i2 n2 where st2: "st2 = (i2, n2)" by (cases st2)
  obtain i3 n3 where st3: "st3 = (i3, n3)" by (cases st3)
  note a = place1_Inr [OF s1 [unfolded st1]]
  note b = place1_Inr [OF s2 [unfolded st1 st2]]
  note c = place1_Inr [OF s3 [unfolded st2 st3]]
  have "0 \<le> ch ! (i * 3 + j) \<and> ch ! (i * 3 + j) < int (length nxt)" if "j < 3" for j
  proof -
    from that consider "j = 0" | "j = 1" | "j = 2" by linarith
    then show ?thesis
      using a b c by cases simp_all
  qed
  with a b c res st3 show ?thesis by simp
qed

lemma place_pass_Inr:
  assumes "efold (place_step ops vs ch) [0..<m] (tris, inds, nxt) = Inr (tris', inds', nxt')"
  shows "length tris' = length tris \<and> length inds' = length inds \<and> length nxt' = length nxt
         \<and> (\<forall>k<m * 3. 0 \<le> ch ! k \<and> ch ! k < int (length nxt))"
proof -
  let ?I = "\<lambda>i st. length (fst st) = length tris \<and> length (fst (snd st)) = length inds
      \<and> length (snd (snd st)) = length nxt
      \<and> (\<forall>k<i * 3. 0 \<le> ch ! k \<and> ch ! k < int (length nxt))"
  have "?I m (tris', inds', nxt')"
  proof (rule efold_invariant [OF assms, where I = ?I])
    show "?I 0 (tris, inds, nxt)" by simp
  next
    fix i a b
    assume i: "i < m" and inv: "?I i a" and step: "place_step ops vs ch i a = Inr b"
    obtain t1 i1 n1 where a: "a = (t1, i1, n1)" by (cases a)
    obtain t2 i2 n2 where b: "b = (t2, i2, n2)" by (cases b)
    note s = place_step_Inr [OF step [unfolded a b]]
    have "0 \<le> ch ! k \<and> ch ! k < int (length nxt)" if "k < Suc i * 3" for k
    proof (cases "k < i * 3")
      case True
      with inv show ?thesis by simp
    next
      case False
      with that have "k - i * 3 < 3" and "k = i * 3 + (k - i * 3)" by simp_all
      with s inv a show ?thesis by (metis fst_conv snd_conv)
    qed
    with s inv a b show "?I (Suc i) b" by simp
  qed
  then show ?thesis by simp
qed

lemma sort_step_Inr:
  assumes "sort_step i t = Inr t'"
  shows "Vertices t' = Vertices t \<and> Triangles t' = Triangles t
    \<and> IncidentTriangleOffsets t' = IncidentTriangleOffsets t
    \<and> i + 1 < length (IncidentTriangleOffsets t)
    \<and> IncidentTriangleOffsets t ! i \<le> IncidentTriangleOffsets t ! (i + 1)
    \<and> IncidentTriangleOffsets t ! (i + 1) \<le> length (IncidentTriangleIndices t)
    \<and> (\<exists>sorted.
          sortIncidentTriangleIndicesCCW (int i)
            (take (IncidentTriangleOffsets t ! (i + 1) - IncidentTriangleOffsets t ! i)
               (drop (IncidentTriangleOffsets t ! i) (IncidentTriangleIndices t)))
            (Triangles t) = Inr sorted
          \<and> IncidentTriangleIndices t' =
              take (IncidentTriangleOffsets t ! i) (IncidentTriangleIndices t) @ sorted
              @ drop (IncidentTriangleOffsets t ! (i + 1)) (IncidentTriangleIndices t))"
  using assms
  by (auto simp: sort_step_def ebind_eq_Inr IncidentTriangles_def slice_Inr nat_add_distrib
      split: if_splits)

lemma sort_step_length:
  assumes "sort_step i t = Inr t'"
  shows "length (IncidentTriangleIndices t') = length (IncidentTriangleIndices t)"
proof -
  from sort_step_Inr [OF assms] obtain sorted where
    le: "IncidentTriangleOffsets t ! i \<le> IncidentTriangleOffsets t ! (i + 1)"
      "IncidentTriangleOffsets t ! (i + 1) \<le> length (IncidentTriangleIndices t)" and
    srt: "sortIncidentTriangleIndicesCCW (int i)
            (take (IncidentTriangleOffsets t ! (i + 1) - IncidentTriangleOffsets t ! i)
               (drop (IncidentTriangleOffsets t ! i) (IncidentTriangleIndices t)))
            (Triangles t) = Inr sorted" and
    eq: "IncidentTriangleIndices t' =
              take (IncidentTriangleOffsets t ! i) (IncidentTriangleIndices t) @ sorted
              @ drop (IncidentTriangleOffsets t ! (i + 1)) (IncidentTriangleIndices t)"
    by blast
  from srt have "length sorted = IncidentTriangleOffsets t ! (i + 1) - IncidentTriangleOffsets t ! i"
    using le by (simp add: sortIncidentTriangleIndicesCCW_def sort_from_length)
  with eq le show ?thesis by simp
qed

lemma sort_pass_fields:
  assumes "efold sort_step [0..<n] t = Inr t'"
  shows "Vertices t' = Vertices t \<and> Triangles t' = Triangles t
    \<and> IncidentTriangleOffsets t' = IncidentTriangleOffsets t
    \<and> length (IncidentTriangleIndices t') = length (IncidentTriangleIndices t)"
proof -
  let ?I = "\<lambda>i::nat. \<lambda>a. Vertices a = Vertices t \<and> Triangles a = Triangles t
    \<and> IncidentTriangleOffsets a = IncidentTriangleOffsets t
    \<and> length (IncidentTriangleIndices a) = length (IncidentTriangleIndices t)"
  have "?I n t'"
  proof (rule efold_invariant [OF assms, where I = ?I])
    show "?I 0 t" by simp
  next
    fix i a b
    assume "?I i a" and "sort_step i a = Inr b"
    then show "?I (Suc i) b"
      using sort_step_Inr [of i a b] sort_step_length [of i a b] by simp
  qed
  then show ?thesis .
qed

lemma NewTriangulation_Inr:
  assumes "NewTriangulation ops ch vs setters = Inr t"
  shows "\<exists>opts counted placed.
    apply_setters setters \<lparr>Eps = defaultEps\<rparr> = Inr opts
    \<and> 4 \<le> length vs
    \<and> length (ch vs (Eps opts)) = 2 * (length vs - 2) * 3
    \<and> count_pass (ch vs (Eps opts)) (replicate (length vs + 1) 0) = Inr counted
    \<and> efold (place_step ops vs (ch vs (Eps opts))) [0..<2 * (length vs - 2)]
        (replicate (2 * (length vs - 2)) (0, 0, 0), replicate (2 * (length vs - 2) * 3) 0,
         take (length vs) (prefix_pass (length vs) counted)) = Inr placed
    \<and> efold sort_step [0..<length vs]
        \<lparr>Vertices = vs, Triangles = fst placed, IncidentTriangleIndices = fst (snd placed),
         IncidentTriangleOffsets = prefix_pass (length vs) counted\<rparr> = Inr t"
  using assms
  by (auto simp: NewTriangulation_def ebind_eq_Inr Let_def split: if_splits)

subsection \<open>The construction on the tetrahedron\<close>

lemma NewTriangulation_tetra:
  "NewTriangulation exact_r3 tetra_hull tetra [] = Inr tetra_triangulation"
  by code_simp

lemma NewTriangulation_tetra_eps:
  "NewTriangulation exact_r3 tetra_hull tetra [WithEps defaultEps] = Inr tetra_triangulation"
  by code_simp

lemma neighbor_pass_tetra:
  "efold (neighbor_step tetra_triangulation) [0..<4] (replicate 12 0)
     = Inr [1, 3, 2, 2, 3, 0, 0, 3, 1, 0, 1, 2]"
  by code_simp

lemma upt_4: "[0..<4] = [0, 1, 2, 3]"
  by code_simp

lemma circum_pass_tetra:
  "efold (circum_step exact_r3 tetra_triangulation) [0..<4] (replicate 4 (Vector 0 0 0))
     = Inr (VoronoiVertices tetra_diagram)"
  by (simp add: upt_4 circum_step_def TriangleVertices_def tetra_triangulation_def tetra_def
      at_int_def triangleCircumcenter_def exact_r3_simps tetra_diagram_def
      numeral_eq_Suc)

lemma NewDiagram_tetra: "NewDiagram exact_r3 tetra_hull tetra 0 = Inr tetra_diagram"
proof -
  have len: "length (Triangles tetra_triangulation) = 4"
    "length (IncidentTriangleIndices tetra_triangulation) = 12"
    "length (Vertices tetra_triangulation) = 4"
    by (simp_all add: tetra_triangulation_def tetra_def)
  show ?thesis
    unfolding NewDiagram_def
    by (simp add: NewTriangulation_tetra_eps len circum_pass_tetra neighbor_pass_tetra)
      (simp add: tetra_diagram_def tetra_triangulation_def)
qed

subsection \<open>The construction on the other inputs\<close>

lemma Normalize_zero: "Normalize exact_r3 (Vector 0 0 0) = Vector 0 0 0"
  by (simp add: Normalize_exact exact_r3_simps)

lemma NewTriangulation_degenerate:
  "NewTriangulation exact_r3 degenerate_hull tetra [WithEps defaultEps] = Inr degenerate_triangulation"
  by code_simp

lemma neighbor_pass_degenerate:
  "efold (neighbor_step degenerate_triangulation) [0..<4] (replicate 12 0)
     = Inr [1, 3, 2, 0, 0, 2, 0, 0, 0, 3, 0, 1]"
  by code_simp

lemma circum_pass_degenerate:
  "efold (circum_step exact_r3 degenerate_triangulation) [0..<4] (replicate 4 (Vector 0 0 0))
     = Inr (VoronoiVertices degenerate_diagram)"
  by (simp add: upt_4 circum_step_def TriangleVertices_def degenerate_triangulation_def tetra_def
      at_int_def triangleCircumcenter_def exact_r3_simps degenerate_diagram_def Normalize_zero
      numeral_eq_Suc)

lemma NewDiagram_degenerate:
  "NewDiagram exact_r3 degenerate_hull tetra 0 = Inr degenerate_diagram"
proof -
  have len: "length (Triangles degenerate_triangulation) = 4"
    "length (IncidentTriangleIndices degenerate_triangulation) = 12"
    "length (Vertices degenerate_triangulation) = 4"
    by (simp_all add: degenerate_triangulation_def tetra_def)
  show ?thesis
    unfolding NewDiagram_def
    by (simp add: NewTriangulation_degenerate len circum_pass_degenerate neighbor_pass_degenerate)
      (simp add: degenerate_diagram_def degenerate_triangulation_def)
qed

lemma NewTriangulation_octant:
  "NewTriangulation exact_r3 octant_hull octant [] = Inr octant_triangulation"
  by code_simp

lemma circle_sites_values:
  "fl64 (6 / 10) = 5404319552844595 / 2 ^ 53"
  "fl64 (8 / 10) = 3602879701896397 / 2 ^ 52"
  "fl64 (- 6 / 10) = - 5404319552844595 / 2 ^ 53"
  "fl64 (48 / 100) = 1080863910568919 / 2 ^ 51"
  "fl64 (64 / 100) = 5764607523034235 / 2 ^ 53"
  by code_simp+

lemma NewTriangulation_circle:
  "NewTriangulation float64_r3 circle_hull circle_sites [] = Inr circle_triangulation"
  by code_simp

subsection \<open>Validation of the input\<close>

text \<open>
  Claim C3. For every input of \<open>N \<ge> 4\<close> sites whose options are accepted (so that
  the hull routine is called, with the tolerance of the options), the construction of
  the triangulation fails with \<open>InconsistentHullOutput\<close> when the hull output does
  not contain exactly \<open>3 * 2*(N-2)\<close> indices; and on every successful construction
  the number of triangles equals \<open>2*(N-2)\<close>.
\<close>

theorem NewTriangulation_triangle_count:
  "(apply_setters setters \<lparr>Eps = defaultEps\<rparr> = Inr opts \<and> 4 \<le> length vs
      \<and> length (ch vs (Eps opts)) \<noteq> 3 * (2 * (length vs - 2))
      \<longrightarrow> NewTriangulation ops ch vs setters = Inl InconsistentHullOutput)
   \<and> (NewTriangulation ops ch vs setters = Inr t
      \<longrightarrow> 4 \<le> length vs \<and> length (Triangles t) = 2 * (length vs - 2))"
proof (intro conjI impI)
  assume "apply_setters setters \<lparr>Eps = defaultEps\<rparr> = Inr opts \<and> 4 \<le> length vs
      \<and> length (ch vs (Eps opts)) \<noteq> 3 * (2 * (length vs - 2))"
  then show "NewTriangulation ops ch vs setters = Inl InconsistentHullOutput"
    by (simp add: NewTriangulation_def Let_def mult.commute)
next
  assume ok: "NewTriangulation ops ch vs setters = Inr t"
  from NewTriangulation_Inr [OF ok] obtain given counted placed where
    n: "4 \<le> length vs" and
    placed: "efold (place_step ops vs (ch vs (Eps (given :: TriangulationOptions)))) [0..<2 * (length vs - 2)]
        (replicate (2 * (length vs - 2)) (0, 0, 0), replicate (2 * (length vs - 2) * 3) 0,
         take (length vs) (prefix_pass (length vs) counted)) = Inr placed" and
    sorted: "efold sort_step [0..<length vs]
        \<lparr>Vertices = vs, Triangles = fst placed, IncidentTriangleIndices = fst (snd placed),
         IncidentTriangleOffsets = prefix_pass (length vs) counted\<rparr> = Inr t"
    by blast
  obtain tris inds nxt where p: "placed = (tris, inds, nxt)" by (cases placed)
  from place_pass_Inr [OF placed [unfolded p]] have "length tris = 2 * (length vs - 2)"
    by simp
  moreover from sort_pass_fields [OF sorted] p have "Triangles t = tris"
    by simp
  ultimately show "4 \<le> length vs" and "length (Triangles t) = 2 * (length vs - 2)"
    using n by simp_all
qed

theorem NewTriangulation_triangle_count_witness:
  "apply_setters [] \<lparr>Eps = defaultEps\<rparr> = Inr \<lparr>Eps = defaultEps\<rparr> \<and> 4 \<le> length tetra
   \<and> length (short_hull tetra (Eps \<lparr>Eps = defaultEps\<rparr>)) \<noteq> 3 * (2 * (length tetra - 2))
   \<and> NewTriangulation exact_r3 short_hull tetra [] = Inl InconsistentHullOutput
   \<and> NewTriangulation exact_r3 tetra_hull tetra [] = Inr tetra_triangulation
   \<and> length (Triangles tetra_triangulation) = 2 * (length tetra - 2)"
  using NewTriangulation_triangle_count [where setters = "[]" and opts = "\<lparr>Eps = defaultEps\<rparr>"
      and vs = tetra and ch = short_hull]
    NewTriangulation_triangle_count [where setters = "[]" and vs = tetra and ch = tetra_hull
      and t = tetra_triangulation]
    NewTriangulation_tetra
  by (simp add: short_hull_def tetra_def)

text \<open>
  Claim C8, as amended. For every input sequence of fewer than 4 sites the
  construction fails and returns no result. The options are applied before the sites
  are counted: the error is that of the first failing option if there is one
  (\<open>InvalidTolerance\<close> for a tolerance that is not positive), and
  \<open>InsufficientInput\<close> otherwise. For the diagram: \<open>InvalidTolerance\<close> for a
  negative tolerance, \<open>InsufficientInput\<close> otherwise.
\<close>

theorem insufficient_sites_rejected:
  assumes "length vs < 4"
  shows "NewTriangulation ops ch vs setters =
           (case apply_setters setters \<lparr>Eps = defaultEps\<rparr> of
              Inl e \<Rightarrow> Inl e | Inr opts \<Rightarrow> Inl InsufficientInput)
         \<and> NewDiagram ops ch vs eps = Inl (if eps < 0 then InvalidTolerance else InsufficientInput)"
proof
  show "NewTriangulation ops ch vs setters =
           (case apply_setters setters \<lparr>Eps = defaultEps\<rparr> of
              Inl e \<Rightarrow> Inl e | Inr opts \<Rightarrow> Inl InsufficientInput)"
    using assms by (simp add: NewTriangulation_def Let_def split: sum.splits)
  show "NewDiagram ops ch vs eps = Inl (if eps < 0 then InvalidTolerance else InsufficientInput)"
    using assms
    by (simp add: NewDiagram_def NewTriangulation_def WithEps_def Let_def defaultEps_def)
qed

theorem insufficient_sites_rejected_witness:
  "length (take 3 tetra) < 4
   \<and> NewTriangulation exact_r3 tetra_hull (take 3 tetra) [] = Inl InsufficientInput
   \<and> NewDiagram exact_r3 tetra_hull (take 3 tetra) 0 = Inl InsufficientInput"
  using insufficient_sites_rejected [where vs = "take 3 tetra" and ch = tetra_hull
      and setters = "[]" and eps = 0]
  by (simp add: tetra_def)

text \<open>
  The claim as stated, for every input of fewer than 4 sites, fails when the tolerance
  is invalid as well: with three sites and tolerance \<open>-1\<close> the error is
  \<open>InvalidTolerance\<close>, not \<open>InsufficientInput\<close>.
\<close>

theorem insufficient_sites_invalid_tolerance:
  "length (take 3 tetra) < 4
   \<and> NewTriangulation exact_r3 tetra_hull (take 3 tetra) [WithEps (- 1)] = Inl InvalidTolerance
   \<and> NewDiagram exact_r3 tetra_hull (take 3 tetra) (- 1) = Inl InvalidTolerance"
  by (simp add: tetra_def NewDiagram_def NewTriangulation_def WithEps_def Let_def)

text \<open>
  Claim C7, as amended. The construction of a triangulation with the option
  \<open>WithEps(eps)\<close>, \<open>eps \<le> 0\<close>, fails with \<open>InvalidTolerance\<close>, and without an
  option the tolerance is \<open>1e-12\<close>. The construction of a diagram fails with
  \<open>InvalidTolerance\<close> for \<open>eps < 0\<close>; \<open>eps == 0\<close> there means that the caller does
  not override the tolerance, and \<open>1e-12\<close> is used.
\<close>

theorem tolerance_validation:
  "(eps \<le> 0 \<longrightarrow> NewTriangulation ops ch vs (WithEps eps # rest) = Inl InvalidTolerance)
   \<and> NewTriangulation ops ch vs [] = NewTriangulation ops ch vs [WithEps (1 / 10 ^ 12)]
   \<and> (eps < 0 \<longrightarrow> NewDiagram ops ch vs eps = Inl InvalidTolerance)
   \<and> NewDiagram ops ch vs 0 = NewDiagram ops ch vs (1 / 10 ^ 12)"
  by (simp add: NewDiagram_def NewTriangulation_def WithEps_def Let_def defaultEps_def)

theorem tolerance_validation_witness:
  "NewTriangulation exact_r3 tetra_hull tetra [WithEps 0] = Inl InvalidTolerance
   \<and> NewTriangulation exact_r3 tetra_hull tetra [WithEps (1 / 10 ^ 12)] = Inr tetra_triangulation
   \<and> NewDiagram exact_r3 tetra_hull tetra (- 1) = Inl InvalidTolerance
   \<and> NewDiagram exact_r3 tetra_hull tetra (1 / 10 ^ 12) = Inr tetra_diagram"
  using tolerance_validation [where eps = 0 and ch = tetra_hull and vs = tetra and rest = "[]"]
    tolerance_validation [where eps = "- 1" and ch = tetra_hull and vs = tetra and rest = "[]"]
    NewTriangulation_tetra NewDiagram_tetra
  by simp

text \<open>
  The claim as stated, for every tolerance \<open>\<le> 0\<close>, fails for the diagram at
  tolerance \<open>0\<close>: the construction succeeds.
\<close>

theorem zero_tolerance_accepted:
  "(0 :: real) \<le> 0 \<and> NewDiagram exact_r3 tetra_hull tetra 0 = Inr tetra_diagram"
  by (simp add: NewDiagram_tetra)

subsection \<open>The offsets\<close>

lemma count_pass_Inr:
  assumes "count_pass ch offs = Inr offs'"
  shows "length offs' = length offs \<and> sum_list offs' = sum_list offs + length ch
         \<and> ((\<forall>x\<in>set ch. 0 \<le> x) \<longrightarrow> offs' ! 0 = offs ! 0)"
  using assms
proof (induction ch arbitrary: offs)
  case Nil
  then show ?case by simp
next
  case (Cons idx rest)
  let ?k = "nat (idx + 1)"
  let ?offs = "offs[?k := offs ! ?k + 1]"
  from Cons.prems have range: "0 \<le> idx + 1" "?k < length offs"
    and rest: "count_pass rest ?offs = Inr offs'"
    by (auto split: if_splits)
  from Cons.IH [OF rest]
  have ih: "length offs' = length ?offs" "sum_list offs' = sum_list ?offs + length rest"
    "(\<forall>x\<in>set rest. 0 \<le> x) \<longrightarrow> offs' ! 0 = ?offs ! 0"
    by simp_all
  have "sum_list ?offs = sum_list offs + 1"
    using range(2) by (simp add: sum_list_update)
  moreover have "?offs ! 0 = offs ! 0" if "0 \<le> idx"
    using that by simp
  ultimately show ?case
    using ih by simp
qed

lemma prefix_pass_Suc:
  "prefix_pass (Suc m) offs =
     (prefix_pass m offs)[m + 1 := prefix_pass m offs ! (m + 1) + prefix_pass m offs ! m]"
  by (simp add: prefix_pass_def)

lemma prefix_pass_nth:
  assumes "m < length offs"
  shows "length (prefix_pass m offs) = length offs
    \<and> (\<forall>k\<le>m. prefix_pass m offs ! k = sum_list (take (Suc k) offs))
    \<and> (\<forall>k. m < k \<and> k < length offs \<longrightarrow> prefix_pass m offs ! k = offs ! k)"
  using assms
proof (induction m)
  case 0
  have "take (Suc 0) offs = [offs ! 0]"
    using 0 by (cases offs) simp_all
  then show ?case
    by (simp add: prefix_pass_def)
next
  case (Suc m)
  let ?r = "prefix_pass m offs"
  from Suc have ih: "length ?r = length offs"
    "\<And>k. k \<le> m \<Longrightarrow> ?r ! k = sum_list (take (Suc k) offs)"
    "\<And>k. m < k \<Longrightarrow> k < length offs \<Longrightarrow> ?r ! k = offs ! k"
    by simp_all
  have new: "?r ! (m + 1) + ?r ! m = sum_list (take (Suc (Suc m)) offs)"
    using ih(2) [of m] ih(3) [of "m + 1"] Suc.prems
    by (simp add: take_Suc_conv_app_nth [of "Suc m"])
  have "prefix_pass (Suc m) offs ! k = sum_list (take (Suc k) offs)" if "k \<le> Suc m" for k
  proof (cases "k = Suc m")
    case True
    with new ih(1) Suc.prems show ?thesis
      by (simp add: prefix_pass_Suc)
  next
    case False
    with that have "k \<le> m" by simp
    with ih(2) [of k] show ?thesis
      by (simp add: prefix_pass_Suc)
  qed
  moreover have "prefix_pass (Suc m) offs ! k = offs ! k" if "Suc m < k" and "k < length offs" for k
    using that ih(3) [of k] by (simp add: prefix_pass_Suc)
  ultimately show ?case
    using ih(1) by (simp add: prefix_pass_Suc)
qed

lemma prefix_pass_sorted:
  assumes "length offs = n + 1"
  shows "sorted (prefix_pass n offs)"
proof -
  from assms have n: "n < length offs" by simp
  note p = prefix_pass_nth [OF n]
  have "prefix_pass n offs ! i \<le> prefix_pass n offs ! Suc i" if "Suc i < length (prefix_pass n offs)" for i
  proof -
    from that p assms have i: "Suc i \<le> n" "Suc i < length offs" by simp_all
    with p have "prefix_pass n offs ! i = sum_list (take (Suc i) offs)"
      and "prefix_pass n offs ! Suc i = sum_list (take (Suc (Suc i)) offs)"
      by simp_all
    with i(2) show ?thesis
      by (simp add: take_Suc_conv_app_nth [of "Suc i"])
  qed
  then show ?thesis
    by (simp add: sorted_iff_nth_Suc)
qed

lemma prefix_pass_last:
  assumes "length offs = n + 1"
  shows "last (prefix_pass n offs) = sum_list offs"
proof -
  from assms have n: "n < length offs" by simp
  note p = prefix_pass_nth [OF n]
  from p assms have "prefix_pass n offs \<noteq> []" by auto
  then have "last (prefix_pass n offs) = prefix_pass n offs ! n"
    using p assms by (simp add: last_conv_nth)
  also have "\<dots> = sum_list (take (Suc n) offs)"
    using p by simp
  finally show ?thesis
    using assms by simp
qed

lemma prefix_pass_first:
  assumes "length offs = n + 1"
  shows "prefix_pass n offs ! 0 = offs ! 0"
proof -
  from assms have n: "n < length offs" by simp
  have "take (Suc 0) offs = [offs ! 0]"
    using n by (cases offs) simp_all
  with prefix_pass_nth [OF n] show ?thesis
    by simp
qed

lemma NewTriangulation_offsets:
  assumes ok: "NewTriangulation ops ch vs setters = Inr t"
  shows "Vertices t = vs
    \<and> length (Triangles t) = 2 * (length vs - 2)
    \<and> length (IncidentTriangleIndices t) = 3 * length (Triangles t)
    \<and> length (IncidentTriangleOffsets t) = length vs + 1
    \<and> sorted (IncidentTriangleOffsets t)
    \<and> IncidentTriangleOffsets t ! 0 = 0
    \<and> last (IncidentTriangleOffsets t) = length (IncidentTriangleIndices t)"
proof -
  from NewTriangulation_Inr [OF ok] obtain given counted placed where
    len: "length (ch vs (Eps (given :: TriangulationOptions))) = 2 * (length vs - 2) * 3" and
    counted: "count_pass (ch vs (Eps given)) (replicate (length vs + 1) 0) = Inr counted" and
    placed: "efold (place_step ops vs (ch vs (Eps given))) [0..<2 * (length vs - 2)]
        (replicate (2 * (length vs - 2)) (0, 0, 0), replicate (2 * (length vs - 2) * 3) 0,
         take (length vs) (prefix_pass (length vs) counted)) = Inr placed" and
    sorted: "efold sort_step [0..<length vs]
        \<lparr>Vertices = vs, Triangles = fst placed, IncidentTriangleIndices = fst (snd placed),
         IncidentTriangleOffsets = prefix_pass (length vs) counted\<rparr> = Inr t"
    by blast
  let ?ch = "ch vs (Eps given)"
  let ?offs = "prefix_pass (length vs) counted"
  obtain tris inds nxt where p: "placed = (tris, inds, nxt)" by (cases placed)
  note pl = place_pass_Inr [OF placed [unfolded p]]
  note cn = count_pass_Inr [OF counted]
  from cn have clen: "length counted = length vs + 1" by simp
  have "0 \<le> x" if "x \<in> set ?ch" for x
  proof -
    from that obtain k where "k < length ?ch" and "?ch ! k = x"
      by (auto simp: in_set_conv_nth)
    with pl len show ?thesis by auto
  qed
  with cn have c0: "counted ! 0 = 0" by simp
  from cn have csum: "sum_list counted = length ?ch" by simp
  from sort_pass_fields [OF sorted] p
  have f: "Vertices t = vs" "Triangles t = tris" "IncidentTriangleOffsets t = ?offs"
    "length (IncidentTriangleIndices t) = length inds"
    by simp_all
  have "length ?offs = length vs + 1"
    using prefix_pass_nth [of "length vs" counted] clen by simp
  moreover have "sorted ?offs"
    using clen by (rule prefix_pass_sorted)
  moreover have "?offs ! 0 = 0"
    using prefix_pass_first [OF clen] c0 by simp
  moreover have "last ?offs = length inds"
    using prefix_pass_last [OF clen] csum len pl by simp
  ultimately show ?thesis
    using f pl by simp
qed

lemma circum_pass_length:
  assumes "efold (circum_step ops dt) [0..<n] vs = Inr vs'"
  shows "length vs' = length vs"
proof -
  have "length vs' = length vs"
  proof (rule efold_invariant [OF assms, where I = "\<lambda>i a. length a = length vs"])
    show "length vs = length vs" ..
  next
    fix i a b
    assume "length a = length vs" and "circum_step ops dt i a = Inr b"
    then show "length b = length vs"
      by (auto simp: circum_step_def ebind_eq_Inr split: if_splits)
  qed
  then show ?thesis .
qed

lemma neighbor_write_length:
  assumes "neighbor_write dt v off it i cn = Inr cn'"
  shows "length cn' = length cn"
  using assms by (auto simp: neighbor_write_def ebind_eq_Inr split: if_splits)

lemma neighbor_writes_length:
  assumes "efold (neighbor_write dt v off it) [0..<m] cn = Inr cn'"
  shows "length cn' = length cn"
proof -
  have "length cn' = length cn"
  proof (rule efold_invariant [OF assms, where I = "\<lambda>i a. length a = length cn"])
    show "length cn = length cn" ..
  next
    fix i a b
    assume "length a = length cn" and "neighbor_write dt v off it i a = Inr b"
    then show "length b = length cn"
      using neighbor_write_length by metis
  qed
  then show ?thesis .
qed

lemma neighbor_pass_length:
  assumes "efold (neighbor_step dt) [0..<n] cn = Inr cn'"
  shows "length cn' = length cn"
proof -
  have "length cn' = length cn"
  proof (rule efold_invariant [OF assms, where I = "\<lambda>i a. length a = length cn"])
    show "length cn = length cn" ..
  next
    fix i a b
    assume "length a = length cn" and "neighbor_step dt i a = Inr b"
    then show "length b = length cn"
      by (auto simp: neighbor_step_def ebind_eq_Inr dest: neighbor_writes_length)
  qed
  then show ?thesis .
qed

lemma NewDiagram_Inr:
  assumes "NewDiagram ops ch sites eps = Inr d"
  shows "\<exists>dt vs cn.
    NewTriangulation ops ch sites [WithEps (if eps = 0 then defaultEps else eps)] = Inr dt
    \<and> efold (circum_step ops dt) [0..<length (Triangles dt)]
          (replicate (length (Triangles dt)) (Vector 0 0 0)) = Inr vs
    \<and> efold (neighbor_step dt) [0..<length (Vertices dt)]
          (replicate (length (IncidentTriangleIndices dt)) 0) = Inr cn
    \<and> d = \<lparr>Sites = Vertices dt, VoronoiVertices = vs,
             CellVertices = IncidentTriangleIndices dt, CellNeighbors = cn,
             CellOffsets = IncidentTriangleOffsets dt\<rparr>"
  using assms by (auto simp: NewDiagram_def ebind_eq_Inr Let_def)

text \<open>
  Claim C6. For every successfully constructed Diagram, \<open>CellOffsets\<close> is
  monotonically non-decreasing, \<open>CellOffsets[0] == 0\<close>, and the last entry of
  \<open>CellOffsets\<close> equals \<open>len(CellVertices)\<close>, which equals \<open>len(CellNeighbors)\<close>,
  which equals \<open>3 * numTriangles\<close> (\<open>numTriangles\<close> is the length of the diagram's
  \<open>Vertices\<close>, and \<open>2*(N-2)\<close>).
\<close>

theorem diagram_offsets:
  assumes "NewDiagram ops ch sites eps = Inr d"
  shows "sorted (CellOffsets d)
    \<and> length (CellOffsets d) = length sites + 1
    \<and> CellOffsets d ! 0 = 0
    \<and> last (CellOffsets d) = length (CellVertices d)
    \<and> length (CellVertices d) = length (CellNeighbors d)
    \<and> length (CellNeighbors d) = 3 * length (VoronoiVertices d)
    \<and> length (VoronoiVertices d) = 2 * (length sites - 2)"
proof -
  from NewDiagram_Inr [OF assms] obtain dt vs cn where
    dt: "NewTriangulation ops ch sites [WithEps (if eps = 0 then defaultEps else eps)] = Inr dt" and
    vs: "efold (circum_step ops dt) [0..<length (Triangles dt)]
          (replicate (length (Triangles dt)) (Vector 0 0 0)) = Inr vs" and
    cn: "efold (neighbor_step dt) [0..<length (Vertices dt)]
          (replicate (length (IncidentTriangleIndices dt)) 0) = Inr cn" and
    d: "d = \<lparr>Sites = Vertices dt, VoronoiVertices = vs,
             CellVertices = IncidentTriangleIndices dt, CellNeighbors = cn,
             CellOffsets = IncidentTriangleOffsets dt\<rparr>"
    by blast
  from circum_pass_length [OF vs] have "length vs = length (Triangles dt)" by simp
  moreover from neighbor_pass_length [OF cn]
  have "length cn = length (IncidentTriangleIndices dt)" by simp
  ultimately show ?thesis
    using NewTriangulation_offsets [OF dt] d by simp
qed

theorem diagram_offsets_witness:
  "NewDiagram exact_r3 tetra_hull tetra 0 = Inr tetra_diagram
   \<and> sorted (CellOffsets tetra_diagram)
   \<and> CellOffsets tetra_diagram = [0, 3, 6, 9, 12]
   \<and> length (CellOffsets tetra_diagram) = length tetra + 1
   \<and> CellOffsets tetra_diagram ! 0 = 0
   \<and> last (CellOffsets tetra_diagram) = 12
   \<and> length (CellVertices tetra_diagram) = 12
   \<and> length (CellNeighbors tetra_diagram) = 12
   \<and> length (VoronoiVertices tetra_diagram) = 4"
proof -
  have vals: "CellOffsets tetra_diagram = [0, 3, 6, 9, 12]"
    "length (CellVertices tetra_diagram) = 12" "length (CellNeighbors tetra_diagram) = 12"
    "length (VoronoiVertices tetra_diagram) = 4" "length tetra = 4"
    by (simp_all add: tetra_diagram_def tetra_def)
  show ?thesis
    using diagram_offsets [OF NewDiagram_tetra] by (simp add: NewDiagram_tetra vals)
qed

subsection \<open>The incidence sort of the construction\<close>

lemma splice_nth:
  assumes "lo \<le> hi" and "hi \<le> length xs" and "length mid = hi - lo" and "p < length xs"
  shows "(take lo xs @ mid @ drop hi xs) ! p =
           (if p < lo then xs ! p else if p < hi then mid ! (p - lo) else xs ! p)"
  using assms by (auto simp: nth_append)

lemma splice_length:
  assumes "lo \<le> hi" and "hi \<le> length xs" and "length mid = hi - lo"
  shows "length (take lo xs @ mid @ drop hi xs) = length xs"
  using assms by simp

lemma slice_cong:
  assumes "length xs = length ys" and "hi \<le> length xs"
    and "\<And>p. lo \<le> p \<Longrightarrow> p < hi \<Longrightarrow> xs ! p = ys ! p"
  shows "take (hi - lo) (drop lo xs) = take (hi - lo) (drop lo ys)"
  using assms by (intro nth_equalityI) auto

lemma splice_slice:
  assumes "lo \<le> hi" and "hi \<le> length xs" and "length mid = hi - lo"
  shows "take (hi - lo) (drop lo (take lo xs @ mid @ drop hi xs)) = mid"
  using assms by simp

lemma offsets_chain:
  assumes "\<And>j. j < i \<Longrightarrow> (offs :: nat list) ! j \<le> offs ! (j + 1)" and "v \<le> i"
  shows "offs ! v \<le> offs ! i"
  using assms
proof (induction i)
  case 0
  then show ?case by simp
next
  case (Suc i)
  show ?case
  proof (cases "v = Suc i")
    case True
    then show ?thesis by simp
  next
    case False
    with Suc.prems have "v \<le> i" by simp
    with Suc have "offs ! v \<le> offs ! i" by simp
    also have "\<dots> \<le> offs ! (i + 1)" using Suc.prems(1) [of i] by simp
    finally show ?thesis by simp
  qed
qed

lemma sort_step_slice:
  assumes "sort_step i a = Inr b"
  shows "sortIncidentTriangleIndicesCCW (int i)
           (site_slice (IncidentTriangleOffsets a) (IncidentTriangleIndices a) i) (Triangles a)
         = Inr (site_slice (IncidentTriangleOffsets a) (IncidentTriangleIndices b) i)
    \<and> (\<forall>p. p < length (IncidentTriangleIndices a)
          \<and> (p < IncidentTriangleOffsets a ! i \<or> IncidentTriangleOffsets a ! (i + 1) \<le> p)
          \<longrightarrow> IncidentTriangleIndices b ! p = IncidentTriangleIndices a ! p)"
proof -
  let ?offs = "IncidentTriangleOffsets a"
  let ?inds = "IncidentTriangleIndices a"
  from sort_step_Inr [OF assms] obtain sorted where
    le: "?offs ! i \<le> ?offs ! (i + 1)" "?offs ! (i + 1) \<le> length ?inds" and
    srt: "sortIncidentTriangleIndicesCCW (int i) (site_slice ?offs ?inds i) (Triangles a) = Inr sorted" and
    eq: "IncidentTriangleIndices b = take (?offs ! i) ?inds @ sorted @ drop (?offs ! (i + 1)) ?inds"
    unfolding site_slice_def by blast
  from srt le have len: "length sorted = ?offs ! (i + 1) - ?offs ! i"
    by (simp add: sortIncidentTriangleIndicesCCW_def sort_from_length site_slice_def)
  have "site_slice ?offs (IncidentTriangleIndices b) i = sorted"
    unfolding site_slice_def eq using le len by (rule splice_slice)
  moreover have "IncidentTriangleIndices b ! p = ?inds ! p"
    if "p < length ?inds" and "p < ?offs ! i \<or> ?offs ! (i + 1) \<le> p" for p
    unfolding eq using splice_nth [OF le len that(1)] that(2) le by auto
  ultimately show ?thesis
    using srt by simp
qed

lemma sort_pass_slices:
  assumes "efold sort_step [0..<n] t0 = Inr t"
  shows "\<forall>v<n. sortIncidentTriangleIndicesCCW (int v)
           (site_slice (IncidentTriangleOffsets t0) (IncidentTriangleIndices t0) v) (Triangles t0)
         = Inr (site_slice (IncidentTriangleOffsets t0) (IncidentTriangleIndices t) v)"
proof -
  let ?offs = "IncidentTriangleOffsets t0"
  let ?L = "length (IncidentTriangleIndices t0)"
  let ?I = "\<lambda>i a. Triangles a = Triangles t0 \<and> IncidentTriangleOffsets a = ?offs
      \<and> length (IncidentTriangleIndices a) = ?L
      \<and> (\<forall>j<i. ?offs ! j \<le> ?offs ! (j + 1) \<and> ?offs ! (j + 1) \<le> ?L)
      \<and> (\<forall>p. p < ?L \<and> (i = 0 \<or> ?offs ! i \<le> p)
            \<longrightarrow> IncidentTriangleIndices a ! p = IncidentTriangleIndices t0 ! p)
      \<and> (\<forall>v<i. sortIncidentTriangleIndicesCCW (int v)
              (site_slice ?offs (IncidentTriangleIndices t0) v) (Triangles t0)
            = Inr (site_slice ?offs (IncidentTriangleIndices a) v))"
  have "?I n t"
  proof (rule efold_invariant [OF assms, where I = ?I])
    show "?I 0 t0" by simp
  next
    fix i a b
    assume inv: "?I i a" and step: "sort_step i a = Inr b"
    let ?ia = "IncidentTriangleIndices a"
    let ?ib = "IncidentTriangleIndices b"
    from inv have tri: "Triangles a = Triangles t0" and offs: "IncidentTriangleOffsets a = ?offs"
      and len: "length ?ia = ?L"
      and mono: "\<And>j. j < i \<Longrightarrow> ?offs ! j \<le> ?offs ! (j + 1)"
      and bound: "\<And>j. j < i \<Longrightarrow> ?offs ! (j + 1) \<le> ?L"
      and tail: "\<And>p. p < ?L \<Longrightarrow> i = 0 \<or> ?offs ! i \<le> p
                  \<Longrightarrow> ?ia ! p = IncidentTriangleIndices t0 ! p"
      and before: "\<And>v. v < i \<Longrightarrow> sortIncidentTriangleIndicesCCW (int v)
              (site_slice ?offs (IncidentTriangleIndices t0) v) (Triangles t0)
            = Inr (site_slice ?offs ?ia v)"
      by simp_all
    from sort_step_Inr [OF step] offs tri len
    have f: "Triangles b = Triangles t0" "IncidentTriangleOffsets b = ?offs"
      and le: "?offs ! i \<le> ?offs ! (i + 1)" "?offs ! (i + 1) \<le> ?L"
      by simp_all
    from sort_step_length [OF step] len have lenb: "length ?ib = ?L" by simp
    from sort_step_slice [OF step] offs tri len
    have this_slice: "sortIncidentTriangleIndicesCCW (int i) (site_slice ?offs ?ia i) (Triangles t0)
         = Inr (site_slice ?offs ?ib i)"
      and same: "\<And>p. p < ?L \<Longrightarrow> p < ?offs ! i \<or> ?offs ! (i + 1) \<le> p \<Longrightarrow> ?ib ! p = ?ia ! p"
      by simp_all
    have mono': "?offs ! j \<le> ?offs ! (j + 1) \<and> ?offs ! (j + 1) \<le> ?L" if "j < Suc i" for j
      using that mono [of j] bound [of j] le by (cases "j = i") simp_all
    have tail': "?ib ! p = IncidentTriangleIndices t0 ! p" if "p < ?L" and "?offs ! Suc i \<le> p" for p
    proof -
      from that le have "?ib ! p = ?ia ! p" using same [of p] by simp
      also from that le have "\<dots> = IncidentTriangleIndices t0 ! p" using tail [of p] by simp
      finally show ?thesis .
    qed
    have raw: "site_slice ?offs ?ia i = site_slice ?offs (IncidentTriangleIndices t0) i"
      unfolding site_slice_def
    proof (rule slice_cong)
      show "length ?ia = ?L" by (rule len)
      show "?offs ! (i + 1) \<le> length ?ia" using le len by simp
      fix p assume "?offs ! i \<le> p" and "p < ?offs ! (i + 1)"
      with le show "?ia ! p = IncidentTriangleIndices t0 ! p"
        using tail [of p] by simp
    qed
    have before': "sortIncidentTriangleIndicesCCW (int v)
              (site_slice ?offs (IncidentTriangleIndices t0) v) (Triangles t0)
            = Inr (site_slice ?offs ?ib v)" if "v < Suc i" for v
    proof (cases "v = i")
      case True
      with this_slice raw show ?thesis by simp
    next
      case False
      with that have v: "v < i" by simp
      have chain: "?offs ! (v + 1) \<le> ?offs ! i"
        using offsets_chain [of i ?offs "v + 1"] mono v by simp
      have "site_slice ?offs ?ib v = site_slice ?offs ?ia v"
        unfolding site_slice_def
      proof (rule slice_cong)
        show "length ?ib = length ?ia" using len lenb by simp
        show "?offs ! (v + 1) \<le> length ?ib" using bound [OF v] lenb by simp
        fix p assume "?offs ! v \<le> p" and p: "p < ?offs ! (v + 1)"
        with chain le have "p < ?L" and "p < ?offs ! i" by simp_all
        then show "?ib ! p = ?ia ! p" using same [of p] by simp
      qed
      with before [OF v] show ?thesis by simp
    qed
    from f lenb mono' tail' before' show "?I (Suc i) b"
      by simp
  qed
  then show ?thesis by simp
qed

lemma IncidentTriangles_site_slice:
  assumes "IncidentTriangles t (int v) = Inr xs"
  shows "xs = site_slice (IncidentTriangleOffsets t) (IncidentTriangleIndices t) v"
  using assms
  by (auto simp: IncidentTriangles_def slice_Inr site_slice_def nat_add_distrib split: if_splits)

lemma IncidentTriangles_total:
  assumes ok: "NewTriangulation ops ch vs setters = Inr t" and v: "v < length vs"
  shows "IncidentTriangles t (int v) =
           Inr (site_slice (IncidentTriangleOffsets t) (IncidentTriangleIndices t) v)"
proof -
  let ?offs = "IncidentTriangleOffsets t"
  from NewTriangulation_offsets [OF ok]
  have len: "length ?offs = length vs + 1" and srt: "sorted ?offs"
    and lst: "last ?offs = length (IncidentTriangleIndices t)"
    by simp_all
  from len have ne: "?offs \<noteq> []" by auto
  from srt v len have a: "?offs ! v \<le> ?offs ! (v + 1)"
    by (simp add: sorted_iff_nth_mono)
  from srt v len have "?offs ! (v + 1) \<le> ?offs ! (length ?offs - 1)"
    by (simp add: sorted_iff_nth_mono)
  with lst ne have b: "?offs ! (v + 1) \<le> length (IncidentTriangleIndices t)"
    by (simp add: last_conv_nth)
  from a b v len show ?thesis
    by (simp add: IncidentTriangles_def slice_def site_slice_def nat_add_distrib)
qed

subsection \<open>The cells of the diagram\<close>

lemma neighbor_write_Inr:
  assumes "neighbor_write dt v off it i cn = Inr cn'"
  shows "off + i < length cn
    \<and> (\<exists>w. next_at (Triangles dt) (int v) (it ! i) = Inr w \<and> cn' = cn[off + i := w])"
  using assms
  by (auto simp: neighbor_write_def next_at_def ebind_eq_Inr split: if_splits)

lemma neighbor_writes_Inr:
  assumes "efold (neighbor_write dt v off it) [0..<m] cn = Inr cn'"
  shows "length cn' = length cn
    \<and> (\<forall>i<m. off + i < length cn
          \<and> next_at (Triangles dt) (int v) (it ! i) = Inr (cn' ! (off + i)))
    \<and> (\<forall>p. p < off \<or> off + m \<le> p \<longrightarrow> cn' ! p = cn ! p)"
proof -
  let ?I = "\<lambda>i a. length a = length cn
    \<and> (\<forall>j<i. off + j < length cn
          \<and> next_at (Triangles dt) (int v) (it ! j) = Inr (a ! (off + j)))
    \<and> (\<forall>p. p < off \<or> off + i \<le> p \<longrightarrow> a ! p = cn ! p)"
  have "?I m cn'"
  proof (rule efold_invariant [OF assms, where I = ?I])
    show "?I 0 cn" by simp
  next
    fix i a b
    assume inv: "?I i a" and step: "neighbor_write dt v off it i a = Inr b"
    from neighbor_write_Inr [OF step] obtain w where
      lt: "off + i < length a" and w: "next_at (Triangles dt) (int v) (it ! i) = Inr w"
      and b: "b = a[off + i := w]"
      by blast
    have "off + j < length cn \<and> next_at (Triangles dt) (int v) (it ! j) = Inr (b ! (off + j))"
      if "j < Suc i" for j
    proof (cases "j = i")
      case True
      with lt w b inv show ?thesis by simp
    next
      case False
      with that have "j < i" by simp
      with inv b show ?thesis by simp
    qed
    moreover have "b ! p = cn ! p" if "p < off \<or> off + Suc i \<le> p" for p
      using that inv b by auto
    ultimately show "?I (Suc i) b"
      using inv b by simp
  qed
  then show ?thesis .
qed

lemma neighbor_step_Inr:
  assumes "neighbor_step dt u cn = Inr cn'"
  shows "length cn' = length cn
    \<and> IncidentTriangleOffsets dt ! u \<le> IncidentTriangleOffsets dt ! (u + 1)
    \<and> IncidentTriangleOffsets dt ! (u + 1) \<le> length (IncidentTriangleIndices dt)
    \<and> (\<forall>i<IncidentTriangleOffsets dt ! (u + 1) - IncidentTriangleOffsets dt ! u.
          IncidentTriangleOffsets dt ! u + i < length cn
          \<and> next_at (Triangles dt) (int u)
               (site_slice (IncidentTriangleOffsets dt) (IncidentTriangleIndices dt) u ! i)
             = Inr (cn' ! (IncidentTriangleOffsets dt ! u + i)))
    \<and> (\<forall>p. p < IncidentTriangleOffsets dt ! u \<or> IncidentTriangleOffsets dt ! (u + 1) \<le> p
          \<longrightarrow> cn' ! p = cn ! p)"
proof -
  let ?offs = "IncidentTriangleOffsets dt"
  let ?it = "site_slice ?offs (IncidentTriangleIndices dt) u"
  from assms obtain it where
    it: "IncidentTriangles dt (int u) = Inr it" and
    wr: "efold (neighbor_write dt u (?offs ! u) it) [0..<length it] cn = Inr cn'"
    by (auto simp: neighbor_step_def ebind_eq_Inr at_nat_Inr)
  from it have le: "?offs ! u \<le> ?offs ! (u + 1)"
    "?offs ! (u + 1) \<le> length (IncidentTriangleIndices dt)"
    by (auto simp: IncidentTriangles_def slice_Inr nat_add_distrib split: if_splits)
  from IncidentTriangles_site_slice [OF it] have eq: "it = ?it" .
  with le have len: "length it = ?offs ! (u + 1) - ?offs ! u"
    by (simp add: site_slice_def)
  from neighbor_writes_Inr [OF wr] le len eq show ?thesis
    by simp
qed

lemma neighbor_pass_Inr:
  assumes "efold (neighbor_step dt) [0..<n] cn = Inr cn'"
  shows "\<forall>u<n. \<forall>i<IncidentTriangleOffsets dt ! (u + 1) - IncidentTriangleOffsets dt ! u.
          next_at (Triangles dt) (int u)
               (site_slice (IncidentTriangleOffsets dt) (IncidentTriangleIndices dt) u ! i)
             = Inr (cn' ! (IncidentTriangleOffsets dt ! u + i))"
proof -
  let ?offs = "IncidentTriangleOffsets dt"
  let ?sl = "site_slice ?offs (IncidentTriangleIndices dt)"
  let ?I = "\<lambda>m a. (\<forall>j<m. ?offs ! j \<le> ?offs ! (j + 1))
    \<and> (\<forall>u<m. \<forall>i<?offs ! (u + 1) - ?offs ! u.
          next_at (Triangles dt) (int u) (?sl u ! i) = Inr (a ! (?offs ! u + i)))"
  have "?I n cn'"
  proof (rule efold_invariant [OF assms, where I = ?I])
    show "?I 0 cn" by simp
  next
    fix m a b
    assume inv: "?I m a" and step: "neighbor_step dt m a = Inr b"
    from inv have mono: "\<And>j. j < m \<Longrightarrow> ?offs ! j \<le> ?offs ! (j + 1)"
      and before: "\<And>u i. u < m \<Longrightarrow> i < ?offs ! (u + 1) - ?offs ! u
          \<Longrightarrow> next_at (Triangles dt) (int u) (?sl u ! i) = Inr (a ! (?offs ! u + i))"
      by simp_all
    from neighbor_step_Inr [OF step]
    have le: "?offs ! m \<le> ?offs ! (m + 1)"
      and this_site: "\<And>i. i < ?offs ! (m + 1) - ?offs ! m
          \<Longrightarrow> next_at (Triangles dt) (int m) (?sl m ! i) = Inr (b ! (?offs ! m + i))"
      and same: "\<And>p. p < ?offs ! m \<Longrightarrow> b ! p = a ! p"
      by simp_all
    have mono': "?offs ! j \<le> ?offs ! (j + 1)" if "j < Suc m" for j
      using that mono [of j] le by (cases "j = m") simp_all
    have "next_at (Triangles dt) (int u) (?sl u ! i) = Inr (b ! (?offs ! u + i))"
      if "u < Suc m" and "i < ?offs ! (u + 1) - ?offs ! u" for u i
    proof (cases "u = m")
      case True
      with that this_site show ?thesis by simp
    next
      case False
      with that have u: "u < m" by simp
      have "?offs ! (u + 1) \<le> ?offs ! m"
        using offsets_chain [of m ?offs "u + 1"] mono u by simp
      with that(2) have "?offs ! u + i < ?offs ! m" by simp
      with same have "b ! (?offs ! u + i) = a ! (?offs ! u + i)" by simp
      with before [OF u that(2)] show ?thesis by simp
    qed
    with mono' show "?I (Suc m) b" by simp
  qed
  then show ?thesis by simp
qed

text \<open>
  Claim C4. For every successfully constructed Diagram and every site \<open>v\<close>, the cell's
  vertex-index list (the slice of \<open>CellVertices\<close> between the two offsets of \<open>v\<close>) is
  exactly the triangulation's \<open>IncidentTriangles(v)\<close>; the arrays \<open>CellVertices\<close> and
  \<open>CellOffsets\<close> are the triangulation's own. For every position \<open>i\<close> in that slice
  the \<open>i\<close>-th entry of \<open>CellNeighbors\<close> for \<open>v\<close> equals \<open>NextVertex(t, v)\<close>, where
  \<open>t\<close> is the \<open>i\<close>-th incident triangle of \<open>v\<close>.
\<close>

theorem diagram_cells:
  assumes ok: "NewDiagram ops ch sites eps = Inr d" and v: "v < length sites"
  shows "\<exists>dt it.
      NewTriangulation ops ch sites [WithEps (if eps = 0 then defaultEps else eps)] = Inr dt
    \<and> CellVertices d = IncidentTriangleIndices dt
    \<and> CellOffsets d = IncidentTriangleOffsets dt
    \<and> IncidentTriangles dt (int v) = Inr it
    \<and> site_slice (CellOffsets d) (CellVertices d) v = it
    \<and> (\<forall>i<length it. it ! i < length (Triangles dt)
          \<and> NextVertex (Triangles dt ! (it ! i)) (int v)
              = Inr (CellNeighbors d ! (CellOffsets d ! v + i)))"
proof -
  from NewDiagram_Inr [OF ok] obtain dt vs cn where
    dt: "NewTriangulation ops ch sites [WithEps (if eps = 0 then defaultEps else eps)] = Inr dt" and
    cn: "efold (neighbor_step dt) [0..<length (Vertices dt)]
          (replicate (length (IncidentTriangleIndices dt)) 0) = Inr cn" and
    d: "d = \<lparr>Sites = Vertices dt, VoronoiVertices = vs,
             CellVertices = IncidentTriangleIndices dt, CellNeighbors = cn,
             CellOffsets = IncidentTriangleOffsets dt\<rparr>"
    by blast
  let ?offs = "IncidentTriangleOffsets dt"
  let ?it = "site_slice ?offs (IncidentTriangleIndices dt) v"
  from NewTriangulation_offsets [OF dt] have "Vertices dt = sites" by simp
  with v have v': "v < length (Vertices dt)" by simp
  from IncidentTriangles_total [OF dt v] have it: "IncidentTriangles dt (int v) = Inr ?it" .
  then have le: "?offs ! v \<le> ?offs ! (v + 1)"
    "?offs ! (v + 1) \<le> length (IncidentTriangleIndices dt)"
    by (auto simp: IncidentTriangles_def slice_Inr nat_add_distrib split: if_splits)
  then have len: "length ?it = ?offs ! (v + 1) - ?offs ! v"
    by (simp add: site_slice_def)
  have "?it ! i < length (Triangles dt)
          \<and> NextVertex (Triangles dt ! (?it ! i)) (int v) = Inr (cn ! (?offs ! v + i))"
    if "i < length ?it" for i
  proof -
    from neighbor_pass_Inr [OF cn] v' that len
    have "next_at (Triangles dt) (int v) (?it ! i) = Inr (cn ! (?offs ! v + i))"
      by simp
    then show ?thesis
      by (auto simp: next_at_def ebind_eq_Inr at_nat_Inr)
  qed
  with dt d it show ?thesis
    by simp
qed

theorem diagram_cells_witness:
  "NewDiagram exact_r3 tetra_hull tetra 0 = Inr tetra_diagram
   \<and> NewTriangulation exact_r3 tetra_hull tetra [WithEps defaultEps] = Inr tetra_triangulation
   \<and> CellVertices tetra_diagram = IncidentTriangleIndices tetra_triangulation
   \<and> CellOffsets tetra_diagram = IncidentTriangleOffsets tetra_triangulation
   \<and> IncidentTriangles tetra_triangulation 1 = Inr [0, 2, 3]
   \<and> site_slice (CellOffsets tetra_diagram) (CellVertices tetra_diagram) 1 = [0, 2, 3]
   \<and> NextVertex (Triangles tetra_triangulation ! 0) 1 = Inr (CellNeighbors tetra_diagram ! 3)
   \<and> NextVertex (Triangles tetra_triangulation ! 2) 1 = Inr (CellNeighbors tetra_diagram ! 4)
   \<and> NextVertex (Triangles tetra_triangulation ! 3) 1 = Inr (CellNeighbors tetra_diagram ! 5)
   \<and> CellNeighbors tetra_diagram = [1, 3, 2, 2, 3, 0, 0, 3, 1, 0, 1, 2]"
proof -
  have v: "1 < length tetra"
    by (simp add: tetra_def)
  have it: "IncidentTriangles tetra_triangulation 1 = Inr [0, 2, 3]"
    by code_simp
  have off: "CellOffsets tetra_diagram ! 1 = 3"
    and cn: "CellNeighbors tetra_diagram = [1, 3, 2, 2, 3, 0, 0, 3, 1, 0, 1, 2]"
    by (simp_all add: tetra_diagram_def)
  from diagram_cells [OF NewDiagram_tetra v] obtain dt xs where
    a: "NewTriangulation exact_r3 tetra_hull tetra [WithEps (if (0 :: real) = 0 then defaultEps else 0)] = Inr dt"
    and b: "CellVertices tetra_diagram = IncidentTriangleIndices dt"
      "CellOffsets tetra_diagram = IncidentTriangleOffsets dt"
    and c: "IncidentTriangles dt 1 = Inr xs"
      "site_slice (CellOffsets tetra_diagram) (CellVertices tetra_diagram) 1 = xs"
    and e: "\<forall>i<length xs. xs ! i < length (Triangles dt)
          \<and> NextVertex (Triangles dt ! (xs ! i)) 1
              = Inr (CellNeighbors tetra_diagram ! (CellOffsets tetra_diagram ! 1 + i))"
    by auto
  from a have dt: "dt = tetra_triangulation"
    by (simp add: NewTriangulation_tetra_eps)
  with c it have xs: "xs = [0, 2, 3]"
    by simp
  from b dt have cv: "CellVertices tetra_diagram = IncidentTriangleIndices tetra_triangulation"
    and co: "CellOffsets tetra_diagram = IncidentTriangleOffsets tetra_triangulation"
    by simp_all
  from c xs have sl: "site_slice (CellOffsets tetra_diagram) (CellVertices tetra_diagram) 1 = [0, 2, 3]"
    by simp
  from e dt xs
  have nb: "\<forall>i<length [0, 2, 3 :: nat]. [0, 2, 3] ! i < length (Triangles tetra_triangulation)
          \<and> NextVertex (Triangles tetra_triangulation ! ([0, 2, 3] ! i)) 1
              = Inr (CellNeighbors tetra_diagram ! (CellOffsets tetra_diagram ! 1 + i))"
    by simp
  from nb [rule_format, of 0] nb [rule_format, of 1] nb [rule_format, of 2] off
  have "NextVertex (Triangles tetra_triangulation ! 0) 1 = Inr (CellNeighbors tetra_diagram ! 3)"
    "NextVertex (Triangles tetra_triangulation ! 2) 1 = Inr (CellNeighbors tetra_diagram ! 4)"
    "NextVertex (Triangles tetra_triangulation ! 3) 1 = Inr (CellNeighbors tetra_diagram ! 5)"
    by simp_all
  with NewDiagram_tetra NewTriangulation_tetra_eps cv co it sl cn show ?thesis
    by simp
qed

subsection \<open>The Voronoi vertices\<close>

lemma circum_pass_Inr:
  assumes "efold (circum_step ops dt) [0..<n] vs = Inr vs'"
  shows "length vs' = length vs
    \<and> (\<forall>i<n. i < length vs \<and> (\<exists>p0 p1 p2. TriangleVertices dt (int i) = Inr (p0, p1, p2)
          \<and> vs' ! i = Normalize ops (triangleCircumcenter ops p0 p1 p2)))"
proof -
  let ?I = "\<lambda>m a. length a = length vs
    \<and> (\<forall>i<m. i < length vs \<and> (\<exists>p0 p1 p2. TriangleVertices dt (int i) = Inr (p0, p1, p2)
          \<and> a ! i = Normalize ops (triangleCircumcenter ops p0 p1 p2)))"
  have "?I n vs'"
  proof (rule efold_invariant [OF assms, where I = ?I])
    show "?I 0 vs" by simp
  next
    fix m a b
    assume inv: "?I m a" and step: "circum_step ops dt m a = Inr b"
    from step obtain p0 p1 p2 where
      tv: "TriangleVertices dt (int m) = Inr (p0, p1, p2)" and lt: "m < length a"
      and b: "b = a[m := Normalize ops (triangleCircumcenter ops p0 p1 p2)]"
      by (auto simp: circum_step_def ebind_eq_Inr split: if_splits)
    have "i < length vs \<and> (\<exists>p0 p1 p2. TriangleVertices dt (int i) = Inr (p0, p1, p2)
          \<and> b ! i = Normalize ops (triangleCircumcenter ops p0 p1 p2))" if "i < Suc m" for i
    proof (cases "i = m")
      case True
      with tv lt b inv show ?thesis by simp
    next
      case False
      with that have "i < m" by simp
      with inv b False show ?thesis by simp
    qed
    with inv b show "?I (Suc m) b" by simp
  qed
  then show ?thesis .
qed

lemma Norm_Normalize:
  assumes "v \<noteq> Vector 0 0 0"
  shows "Norm (Normalize exact_r3 v) = 1"
proof -
  obtain x y z where v: "v = Vector x y z" by (cases v)
  define n2 where "n2 = x * x + y * y + z * z"
  from assms v have "x \<noteq> 0 \<or> y \<noteq> 0 \<or> z \<noteq> 0" by simp
  then have "x * x + y * y + z * z \<noteq> 0"
    by (simp add: sum_squares_eq_zero_iff add_nonneg_eq_0_iff)
  moreover have "0 \<le> x * x + y * y + z * z"
    by simp
  ultimately have pos: "0 < n2"
    unfolding n2_def by linarith
  define s where "s = 1 / sqrt n2"
  have "s * s = 1 / (sqrt n2 * sqrt n2)"
    by (simp add: s_def)
  also have "\<dots> = 1 / n2"
    using pos by simp
  finally have ss: "s * s * n2 = 1"
    using pos by simp
  have "s * x * (s * x) + s * y * (s * y) + s * z * (s * z) = s * s * n2"
    by (simp add: n2_def algebra_simps)
  with ss have one: "s * x * (s * x) + s * y * (s * y) + s * z * (s * z) = 1"
    by simp
  have "Normalize exact_r3 v = Vector (s * x) (s * y) (s * z)"
    using pos by (simp add: Normalize_exact exact_r3_simps v s_def n2_def)
  then show ?thesis
    using one by (simp add: Norm_def)
qed

text \<open>
  Claim C2, as amended. For every successfully constructed Diagram and every triangle
  index \<open>i\<close>, \<open>Vertices[i]\<close> is computed from the three sphere points of
  \<open>Triangles[i]\<close>, the triangle with the same index: two edge vectors are crossed,
  the result is flipped if its dot product with the sum of the three site vectors is
  negative, and \<open>Normalize\<close> is applied to it, all in the arithmetic of the vector
  library. \<open>Normalize\<close> returns the zero vector for the zero vector: in exact
  arithmetic a Voronoi vertex has norm \<open>1\<close> when the cross product is not the zero
  vector, and is the zero vector when it is.
\<close>

theorem voronoi_vertices:
  assumes ok: "NewDiagram ops ch sites eps = Inr d" and i: "i < length (VoronoiVertices d)"
  shows "\<exists>dt p0 p1 p2 c.
      NewTriangulation ops ch sites [WithEps (if eps = 0 then defaultEps else eps)] = Inr dt
    \<and> length (VoronoiVertices d) = length (Triangles dt)
    \<and> TriangleVertices dt (int i) = Inr (p0, p1, p2)
    \<and> c = Cross ops (Sub ops p0 p1) (Sub ops p1 p2)
    \<and> VoronoiVertices d ! i =
        Normalize ops (if Dot ops c (Add ops (Add ops p0 p1) p2) < 0 then Mul ops c (- 1) else c)
    \<and> (ops = exact_r3 \<longrightarrow>
          (c \<noteq> Vector 0 0 0 \<longrightarrow> Norm (VoronoiVertices d ! i) = 1)
        \<and> (c = Vector 0 0 0 \<longrightarrow> VoronoiVertices d ! i = Vector 0 0 0))"
proof -
  from NewDiagram_Inr [OF ok] obtain dt vs cn where
    dt: "NewTriangulation ops ch sites [WithEps (if eps = 0 then defaultEps else eps)] = Inr dt" and
    vs: "efold (circum_step ops dt) [0..<length (Triangles dt)]
          (replicate (length (Triangles dt)) (Vector 0 0 0)) = Inr vs" and
    d: "d = \<lparr>Sites = Vertices dt, VoronoiVertices = vs,
             CellVertices = IncidentTriangleIndices dt, CellNeighbors = cn,
             CellOffsets = IncidentTriangleOffsets dt\<rparr>"
    by blast
  from circum_pass_Inr [OF vs] d i obtain p0 p1 p2 where
    len: "length vs = length (Triangles dt)" and
    tv: "TriangleVertices dt (int i) = Inr (p0, p1, p2)" and
    v: "vs ! i = Normalize ops (triangleCircumcenter ops p0 p1 p2)"
    by auto
  define c where "c = Cross ops (Sub ops p0 p1) (Sub ops p1 p2)"
  define f where "f = (if Dot ops c (Add ops (Add ops p0 p1) p2) < 0 then Mul ops c (- 1) else c)"
  have v': "vs ! i = Normalize ops f"
    using v by (simp add: triangleCircumcenter_def Let_def c_def f_def)
  have flip: "f = Vector 0 0 0 \<longleftrightarrow> c = Vector 0 0 0" if "ops = exact_r3"
    using that by (cases c) (auto simp: f_def exact_r3_simps)
  have "Norm (vs ! i) = 1" if "ops = exact_r3" "c \<noteq> Vector 0 0 0"
    using that v' flip by (simp add: Norm_Normalize)
  moreover have "vs ! i = Vector 0 0 0" if "ops = exact_r3" "c = Vector 0 0 0"
    using that v' flip by (simp add: Normalize_exact exact_r3_simps)
  ultimately show ?thesis
    using dt d len tv v' unfolding f_def c_def by auto
qed

theorem voronoi_vertices_witness:
  "NewDiagram exact_r3 tetra_hull tetra 0 = Inr tetra_diagram
   \<and> 0 < length (VoronoiVertices tetra_diagram)
   \<and> TriangleVertices tetra_triangulation 0 = Inr (Vector 1 0 0, Vector 0 1 0, Vector 0 0 1)
   \<and> Cross exact_r3 (Sub exact_r3 (Vector 1 0 0) (Vector 0 1 0))
        (Sub exact_r3 (Vector 0 1 0) (Vector 0 0 1)) = Vector 1 1 1
   \<and> Vector 1 1 1 \<noteq> Vector 0 0 0
   \<and> VoronoiVertices tetra_diagram ! 0 = Normalize exact_r3 (Vector 1 1 1)
   \<and> Norm (VoronoiVertices tetra_diagram ! 0) = 1"
proof -
  have i: "0 < length (VoronoiVertices tetra_diagram)"
    by (simp add: tetra_diagram_def)
  have tv: "TriangleVertices tetra_triangulation 0 = Inr (Vector 1 0 0, Vector 0 1 0, Vector 0 0 1)"
    by (simp add: TriangleVertices_def tetra_triangulation_def tetra_def at_int_def)
  have c: "Cross exact_r3 (Sub exact_r3 (Vector 1 0 0) (Vector 0 1 0))
        (Sub exact_r3 (Vector 0 1 0) (Vector 0 0 1)) = Vector 1 1 1"
    by (simp add: exact_r3_simps)
  have v: "VoronoiVertices tetra_diagram ! 0 = Normalize exact_r3 (Vector 1 1 1)"
    by (simp add: tetra_diagram_def)
  from voronoi_vertices [OF NewDiagram_tetra i] obtain dt p0 p1 p2 where
    dt: "NewTriangulation exact_r3 tetra_hull tetra [WithEps defaultEps] = Inr dt" and
    p: "TriangleVertices dt (int 0) = Inr (p0, p1, p2)" and
    n: "Cross exact_r3 (Sub exact_r3 p0 p1) (Sub exact_r3 p1 p2) \<noteq> Vector 0 0 0
          \<longrightarrow> Norm (VoronoiVertices tetra_diagram ! 0) = 1"
    by auto
  from dt have "dt = tetra_triangulation"
    by (simp add: NewTriangulation_tetra_eps)
  with p tv have "p0 = Vector 1 0 0" "p1 = Vector 0 1 0" "p2 = Vector 0 0 1"
    by simp_all
  with n c have "Norm (VoronoiVertices tetra_diagram ! 0) = 1"
    by simp
  with NewDiagram_tetra i tv c v show ?thesis
    by simp
qed

text \<open>
  The claim as stated, unit norm for every Voronoi vertex, fails on a hull output with a
  triple that repeats a site: the construction checks the length of the hull output
  only and succeeds, the edge vector between the two equal points is the zero vector,
  so is the cross product, and the Voronoi vertex of that triangle is the zero vector,
  of norm \<open>0\<close>.
\<close>

theorem voronoi_vertex_zero:
  "NewDiagram exact_r3 degenerate_hull tetra 0 = Inr degenerate_diagram
   \<and> Triangles degenerate_triangulation ! 2 = (2, 0, 0)
   \<and> VoronoiVertices degenerate_diagram ! 2 = Vector 0 0 0
   \<and> Norm (VoronoiVertices degenerate_diagram ! 2) = 0"
  by (simp add: NewDiagram_degenerate degenerate_diagram_def degenerate_triangulation_def Norm_def)

text \<open>
  That vertex is the zero vector in rounded arithmetic too, as soon as the rounding
  leaves \<open>0\<close> as it is.
\<close>

lemma repeated_site_circumcenter:
  assumes "rnd 0 = 0"
  shows "Normalize (r3_rounded rnd) (triangleCircumcenter (r3_rounded rnd) p q q) = Vector 0 0 0"
  using assms by (simp add: triangleCircumcenter_def r3_rounded_def Let_def)

subsection \<open>The incidence arrays, and when the construction succeeds\<close>

text \<open>
  The placement pass fills the slice of every site with the triangles that have the site
  as a vertex. So the construction of the triangulation succeeds exactly when the options
  are accepted, there are at least 4 sites, and the hull output has the expected length
  and names sites only; and the construction of the diagram fails only when that of the
  triangulation does.
\<close>

lemma slices_incident_iff:
  "slices_incident t \<longleftrightarrow>
     (\<forall>v<length (Vertices t).
        \<forall>x\<in>set (site_slice (IncidentTriangleOffsets t) (IncidentTriangleIndices t) v).
          x < length (Triangles t) \<and> in_triangle (int v) (Triangles t ! x))"
  by (auto simp: slices_incident_def)

lemma count_pass_nth:
  assumes "count_pass ch offs = Inr offs'" and "k < length offs"
  shows "offs' ! k = offs ! k + count_list ch (int k - 1)"
  using assms
proof (induction ch arbitrary: offs)
  case Nil
  then show ?case by simp
next
  case (Cons idx rest)
  let ?j = "nat (idx + 1)"
  let ?offs = "offs[?j := offs ! ?j + 1]"
  from Cons.prems have range: "0 \<le> idx + 1" "?j < length offs"
    and rest: "count_pass rest ?offs = Inr offs'"
    by (auto split: if_splits)
  from Cons.IH [OF rest] Cons.prems(2)
  have "offs' ! k = ?offs ! k + count_list rest (int k - 1)"
    by simp
  moreover have "?offs ! k = offs ! k + (if idx = int k - 1 then 1 else 0)"
    using range Cons.prems(2) by (auto simp: nth_list_update)
  ultimately show ?case by simp
qed

lemma count_pass_total:
  assumes "\<forall>x\<in>set ch. 0 \<le> x + 1 \<and> x + 1 < int (length offs)"
  shows "\<exists>offs'. count_pass ch offs = Inr offs'"
  using assms by (induction ch arbitrary: offs) auto

lemma count_list_take_Suc:
  assumes "k < length xs"
  shows "count_list (take (Suc k) xs) x = count_list (take k xs) x + (if xs ! k = x then 1 else 0)"
  using assms by (simp add: take_Suc_conv_app_nth)

lemma count_list_take_le: "count_list (take k xs) x \<le> count_list xs x"
proof -
  have "count_list (take k xs @ drop k xs) x = count_list (take k xs) x + count_list (drop k xs) x"
    by (rule count_list_append)
  then show ?thesis by simp
qed

lemma count_list_take_less:
  assumes "k < length xs" and "xs ! k = x"
  shows "count_list (take k xs) x < count_list xs x"
  using count_list_take_le [of "Suc k" xs x] count_list_take_Suc [OF assms(1), of x] assms(2)
  by simp

text \<open>The offsets after the counting pass and the prefix sum.\<close>

lemma offsets_step:
  assumes counted: "count_pass ch (replicate (n + 1) 0) = Inr counted" and v: "v < n"
  shows "prefix_pass n counted ! (v + 1) = prefix_pass n counted ! v + count_list ch (int v)"
proof -
  from count_pass_Inr [OF counted] have len: "length counted = n + 1" by simp
  then have n: "n < length counted" by simp
  note p = prefix_pass_nth [OF n]
  from p v have a: "prefix_pass n counted ! v = sum_list (take (Suc v) counted)"
    and b: "prefix_pass n counted ! (v + 1) = sum_list (take (Suc (Suc v)) counted)"
    by simp_all
  from v len have "take (Suc (Suc v)) counted = take (Suc v) counted @ [counted ! Suc v]"
    by (simp add: take_Suc_conv_app_nth [of "Suc v"])
  moreover from count_pass_nth [OF counted, of "Suc v"] v
  have "counted ! Suc v = count_list ch (int v)"
    by simp
  ultimately show ?thesis
    using a b by simp
qed

lemma place1_step:
  assumes J: "placed_upto ch offs k (inds, nxt)"
    and k: "k < length ch"
    and range: "0 \<le> ch ! k" "ch ! k < int (length nxt)"
    and step: "\<And>u. u < length nxt \<Longrightarrow> offs ! (u + 1) = offs ! u + count_list ch (int u)"
    and top: "offs ! length nxt \<le> length inds"
  shows "\<exists>inds' nxt'. place1 (k div 3) (ch ! k) (inds, nxt) = Inr (inds', nxt')
    \<and> length inds' = length inds \<and> length nxt' = length nxt
    \<and> placed_upto ch offs (Suc k) (inds', nxt')"
proof -
  let ?v = "nat (ch ! k)"
  let ?c = "nxt ! ?v"
  from range have v: "?v < length nxt" and iv: "int ?v = ch ! k" by simp_all
  from J have cur: "\<And>u. u < length nxt \<Longrightarrow> nxt ! u = offs ! u + count_list (take k ch) (int u)"
    and filled: "\<And>u p. u < length nxt \<Longrightarrow> offs ! u \<le> p \<Longrightarrow> p < nxt ! u
        \<Longrightarrow> \<exists>k'<k. ch ! k' = int u \<and> inds ! p = k' div 3"
    by (simp_all add: placed_upto_def)
  have mono: "offs ! u \<le> offs ! w" if "u \<le> w" and "w \<le> length nxt" for u w
  proof -
    have "offs ! j \<le> offs ! (j + 1)" if "j < w" for j
      using step [of j] that \<open>w \<le> length nxt\<close> by simp
    with offsets_chain [of w offs u] that(1) show ?thesis by simp
  qed
  have within: "nxt ! u \<le> offs ! (u + 1)" if "u < length nxt" for u
    using cur [OF that] step [OF that] count_list_take_le [of k ch "int u"] by simp
  have c_lo: "offs ! ?v \<le> ?c"
    using cur [OF v] by simp
  have c_hi: "?c < offs ! (?v + 1)"
    using cur [OF v] step [OF v] count_list_take_less [OF k, of "int ?v"] iv by simp
  also have "\<dots> \<le> offs ! length nxt"
    using mono [of "?v + 1" "length nxt"] v by simp
  finally have c_len: "?c < length inds"
    using top by simp
  let ?inds = "inds[?c := k div 3]"
  let ?nxt = "nxt[?v := ?c + 1]"
  have res: "place1 (k div 3) (ch ! k) (inds, nxt) = Inr (?inds, ?nxt)"
    using range c_len by (simp add: place1_def at_int_def)
  have cur': "?nxt ! u = offs ! u + count_list (take (Suc k) ch) (int u)" if "u < length nxt" for u
  proof (cases "u = ?v")
    case True
    with v cur [OF v] iv k show ?thesis
      by (simp add: count_list_take_Suc)
  next
    case False
    with iv have "ch ! k \<noteq> int u" by auto
    with False that cur [OF that] k show ?thesis
      by (simp add: count_list_take_Suc)
  qed
  have filled': "\<exists>k'<Suc k. ch ! k' = int u \<and> ?inds ! p = k' div 3"
    if u: "u < length nxt" and p: "offs ! u \<le> p" "p < ?nxt ! u" for u p
  proof (cases "p = ?c")
    case True
    have "u = ?v"
    proof (rule ccontr)
      assume ne: "u \<noteq> ?v"
      with p v u have pu: "p < nxt ! u" by simp
      show False
      proof (cases "u < ?v")
        case True
        then have "offs ! (u + 1) \<le> offs ! ?v"
          using mono [of "u + 1" ?v] v by simp
        with pu within [OF u] c_lo \<open>p = ?c\<close> show False by simp
      next
        case False
        with ne have "?v + 1 \<le> u" by simp
        then have "offs ! (?v + 1) \<le> offs ! u"
          using mono [of "?v + 1" u] u by simp
        with c_hi p(1) \<open>p = ?c\<close> show False by simp
      qed
    qed
    with True c_len iv show ?thesis
      by (intro exI [of _ k]) simp
  next
    case False
    have "p < nxt ! u"
    proof (cases "u = ?v")
      case True
      with p(2) v False show ?thesis by simp
    next
      case False
      with p(2) show ?thesis by simp
    qed
    from filled [OF u p(1) this] obtain k' where "k' < k" "ch ! k' = int u" "inds ! p = k' div 3"
      by blast
    with False show ?thesis
      by (intro exI [of _ k']) simp
  qed
  from cur' filled' have "placed_upto ch offs (Suc k) (?inds, ?nxt)"
    by (simp add: placed_upto_def)
  with res show ?thesis by simp
qed

lemma efold_total:
  assumes "I 0 s"
    and "\<And>i a. i < n \<Longrightarrow> I i a \<Longrightarrow> \<exists>b. f i a = Inr b \<and> I (Suc i) b"
  shows "\<exists>s'. efold f [0..<n] s = Inr s' \<and> I n s'"
  using assms
proof (induction n)
  case 0
  then show ?case by simp
next
  case (Suc n)
  from Suc.IH [OF Suc.prems(1)] Suc.prems(2)
  obtain a where a: "efold f [0..<n] s = Inr a" "I n a"
    by auto
  from Suc.prems(2) [of n a] a(2) obtain b where "f n a = Inr b" "I (Suc n) b"
    by auto
  with a(1) show ?case
    by (simp add: efold_upt_Suc del: upt_Suc)
qed

lemma sortTriangleVerticesCCW_Inr:
  assumes "sortTriangleVerticesCCW ops (t0, t1, t2) v = Inr t"
  shows "(t = (t0, t1, t2) \<or> t = (t0, t2, t1))
    \<and> 0 \<le> t0 \<and> t0 < int (length v) \<and> 0 \<le> t1 \<and> t1 < int (length v)
    \<and> 0 \<le> t2 \<and> t2 < int (length v)"
  using assms
  by (auto simp: sortTriangleVerticesCCW_def ebind_eq_Inr at_int_Inr Let_def split: if_splits)

lemma sortTriangleVerticesCCW_total:
  assumes "0 \<le> t0" "t0 < int (length v)" "0 \<le> t1" "t1 < int (length v)"
    "0 \<le> t2" "t2 < int (length v)"
  shows "\<exists>t. sortTriangleVerticesCCW ops (t0, t1, t2) v = Inr t"
  using assms by (simp add: sortTriangleVerticesCCW_def at_int_def Let_def)

lemma place_step_total:
  assumes J: "placed_upto ch offs (i * 3) (inds, nxt)"
    and len: "i * 3 + 2 < length ch"
    and range: "\<And>k. k < length ch \<Longrightarrow> 0 \<le> ch ! k \<and> ch ! k < int (length nxt)"
    and step: "\<And>u. u < length nxt \<Longrightarrow> offs ! (u + 1) = offs ! u + count_list ch (int u)"
    and top: "offs ! length nxt \<le> length inds"
    and vs: "length vs = length nxt"
  shows "\<exists>t inds' nxt'. place_step ops vs ch i (tris, inds, nxt) = Inr (tris[i := t], inds', nxt')
    \<and> sortTriangleVerticesCCW ops (raw_triangle ch i) vs = Inr t
    \<and> length inds' = length inds \<and> length nxt' = length nxt
    \<and> placed_upto ch offs (Suc i * 3) (inds', nxt')"
proof -
  have d: "(i * 3) div 3 = i" "(i * 3 + 1) div 3 = i" "(i * 3 + 2) div 3 = i"
    by simp_all
  from len have k0: "i * 3 < length ch" and k1: "i * 3 + 1 < length ch" by simp_all
  note r0 = range [OF k0] and r1 = range [OF k1] and r2 = range [OF len]
  from place1_step [OF J k0 conjunct1 [OF r0] conjunct2 [OF r0] step top]
  obtain i1 n1 where s1': "place1 (i * 3 div 3) (ch ! (i * 3)) (inds, nxt) = Inr (i1, n1)"
    and l1: "length i1 = length inds" "length n1 = length nxt"
    and J1': "placed_upto ch offs (Suc (i * 3)) (i1, n1)"
    by blast
  from s1' have s1: "place1 i (ch ! (i * 3)) (inds, nxt) = Inr (i1, n1)"
    by simp
  from J1' have J1: "placed_upto ch offs (i * 3 + 1) (i1, n1)"
    by simp
  from l1 step top have step1: "\<And>u. u < length n1 \<Longrightarrow> offs ! (u + 1) = offs ! u + count_list ch (int u)"
    and top1: "offs ! length n1 \<le> length i1"
    by simp_all
  from l1 r1 have r1': "0 \<le> ch ! (i * 3 + 1)" "ch ! (i * 3 + 1) < int (length n1)"
    by simp_all
  from place1_step [OF J1 k1 r1' step1 top1]
  obtain i2 n2 where s2': "place1 ((i * 3 + 1) div 3) (ch ! (i * 3 + 1)) (i1, n1) = Inr (i2, n2)"
    and l2': "length i2 = length i1" "length n2 = length n1"
    and J2': "placed_upto ch offs (Suc (i * 3 + 1)) (i2, n2)"
    by blast
  from s2' d(2) have s2: "place1 i (ch ! (i * 3 + 1)) (i1, n1) = Inr (i2, n2)"
    by simp
  from J2' have J2: "placed_upto ch offs (i * 3 + 2) (i2, n2)"
    by simp
  from l1 l2' have l2: "length i2 = length inds" "length n2 = length nxt"
    by simp_all
  from l2 step top have step2: "\<And>u. u < length n2 \<Longrightarrow> offs ! (u + 1) = offs ! u + count_list ch (int u)"
    and top2: "offs ! length n2 \<le> length i2"
    by simp_all
  from l2 r2 have r2': "0 \<le> ch ! (i * 3 + 2)" "ch ! (i * 3 + 2) < int (length n2)"
    by simp_all
  from place1_step [OF J2 len r2' step2 top2]
  obtain i3 n3 where s3': "place1 ((i * 3 + 2) div 3) (ch ! (i * 3 + 2)) (i2, n2) = Inr (i3, n3)"
    and l3': "length i3 = length i2" "length n3 = length n2"
    and J3': "placed_upto ch offs (Suc (i * 3 + 2)) (i3, n3)"
    by blast
  from s3' d(3) have s3: "place1 i (ch ! (i * 3 + 2)) (i2, n2) = Inr (i3, n3)"
    by simp
  have "Suc (i * 3 + 2) = Suc i * 3"
    by simp
  with J3' have J3: "placed_upto ch offs (Suc i * 3) (i3, n3)"
    by (simp only:)
  from l2 l3' have l3: "length i3 = length inds" "length n3 = length nxt"
    by simp_all
  from sortTriangleVerticesCCW_total [of "ch ! (i * 3)" vs "ch ! (i * 3 + 1)" "ch ! (i * 3 + 2)" ops]
    r0 r1 r2 vs
  obtain t where t: "sortTriangleVerticesCCW ops (raw_triangle ch i) vs = Inr t"
    by (auto simp: raw_triangle_def)
  have "place_step ops vs ch i (tris, inds, nxt) = Inr (tris[i := t], i3, n3)"
    using s1 s2 s3 t by (simp add: place_step_def Let_def raw_triangle_def)
  with t l3 J3 show ?thesis
    by blast
qed

lemma place_pass_total:
  assumes len: "length ch = m * 3"
    and range: "\<And>k. k < length ch \<Longrightarrow> 0 \<le> ch ! k \<and> ch ! k < int n"
    and step: "\<And>u. u < n \<Longrightarrow> offs ! (u + 1) = offs ! u + count_list ch (int u)"
    and top: "offs ! n \<le> length inds"
    and n: "n < length offs"
    and vs: "length vs = n"
    and tris: "length tris = m"
  shows "\<exists>tris' inds' nxt'.
      efold (place_step ops vs ch) [0..<m] (tris, inds, take n offs) = Inr (tris', inds', nxt')
    \<and> length tris' = m \<and> length inds' = length inds
    \<and> (\<forall>j<m. sortTriangleVerticesCCW ops (raw_triangle ch j) vs = Inr (tris' ! j))
    \<and> (\<forall>v<n. \<forall>p. offs ! v \<le> p \<and> p < offs ! (v + 1)
          \<longrightarrow> (\<exists>k'<m * 3. ch ! k' = int v \<and> inds' ! p = k' div 3))"
proof -
  let ?I = "\<lambda>i st. length (fst st) = m \<and> length (fst (snd st)) = length inds
    \<and> length (snd (snd st)) = n
    \<and> placed_upto ch offs (i * 3) (snd st)
    \<and> (\<forall>j<i. sortTriangleVerticesCCW ops (raw_triangle ch j) vs = Inr (fst st ! j))"
  have init: "?I 0 (tris, inds, take n offs)"
    using tris n by (simp add: placed_upto_def)
  have step': "\<exists>b. place_step ops vs ch i a = Inr b \<and> ?I (Suc i) b" if i: "i < m" and inv: "?I i a" for i a
  proof -
    obtain ta ia na where a: "a = (ta, ia, na)" by (cases a)
    from inv a have l: "length ta = m" "length ia = length inds" "length na = n"
      and J: "placed_upto ch offs (i * 3) (ia, na)"
      and before: "\<And>j. j < i \<Longrightarrow> sortTriangleVerticesCCW ops (raw_triangle ch j) vs = Inr (ta ! j)"
      by simp_all
    from i len have k: "i * 3 + 2 < length ch" by simp
    from range l have range': "\<And>k. k < length ch \<Longrightarrow> 0 \<le> ch ! k \<and> ch ! k < int (length na)"
      by simp
    from step l have st: "\<And>u. u < length na \<Longrightarrow> offs ! (u + 1) = offs ! u + count_list ch (int u)"
      by simp
    from top l have tp: "offs ! length na \<le> length ia" by simp
    from vs l have vl: "length vs = length na" by simp
    from place_step_total [OF J k range' st tp vl, where tris = ta and ops = ops]
    obtain t ib nb where res: "place_step ops vs ch i (ta, ia, na) = Inr (ta[i := t], ib, nb)"
      and t: "sortTriangleVerticesCCW ops (raw_triangle ch i) vs = Inr t"
      and lb: "length ib = length ia" "length nb = length na"
      and Jb: "placed_upto ch offs (Suc i * 3) (ib, nb)"
      by blast
    have "sortTriangleVerticesCCW ops (raw_triangle ch j) vs = Inr (ta[i := t] ! j)" if "j < Suc i" for j
    proof (cases "j = i")
      case True
      with t i l show ?thesis by simp
    next
      case False
      with that have "j < i" by simp
      with before [OF this] False show ?thesis by simp
    qed
    with res a l lb Jb show ?thesis
      by simp
  qed
  from efold_total [where I = ?I and f = "place_step ops vs ch", OF init step']
  obtain s' where run: "efold (place_step ops vs ch) [0..<m] (tris, inds, take n offs) = Inr s'"
    and fin: "?I m s'"
    by blast
  obtain tf inf nf where s': "s' = (tf, inf, nf)" by (cases s')
  from fin s' have lf: "length tf = m" "length inf = length inds" "length nf = n"
    and Jf: "placed_upto ch offs (m * 3) (inf, nf)"
    and tf: "\<forall>j<m. sortTriangleVerticesCCW ops (raw_triangle ch j) vs = Inr (tf ! j)"
    by simp_all
  have "\<exists>k'<m * 3. ch ! k' = int v \<and> inf ! p = k' div 3"
    if v: "v < n" and p: "offs ! v \<le> p" "p < offs ! (v + 1)" for v p
  proof -
    from Jf lf v len have "nf ! v = offs ! v + count_list ch (int v)"
      by (simp add: placed_upto_def)
    with step [OF v] p have "p < nf ! v" by simp
    with Jf lf v p(1) show ?thesis
      by (simp add: placed_upto_def)
  qed
  with run s' lf tf show ?thesis
    by simp
qed

lemma PrevVertex_total: "in_triangle v t \<Longrightarrow> \<exists>p. PrevVertex t v = Inr p"
  by (cases t) (auto simp: in_triangle_def PrevVertex_def)

lemma NextVertex_total: "in_triangle v t \<Longrightarrow> \<exists>p. NextVertex t v = Inr p"
  by (cases t) (auto simp: in_triangle_def NextVertex_def)

lemma find_match_total:
  assumes "\<forall>x\<in>set inc. x < length tris \<and> in_triangle v (tris ! x)"
  shows "\<exists>r. find_match v tris inc nxt j = Inr r"
  using assms
proof (induction v tris inc nxt j rule: find_match.induct)
  case (1 vIdx tris incidentTris nxt j)
  show ?case
  proof (cases "j < length incidentTris")
    case False
    then show ?thesis
      by (subst find_match.simps) simp
  next
    case True
    with "1.prems" have ok: "incidentTris ! j < length tris"
      "in_triangle vIdx (tris ! (incidentTris ! j))"
      by simp_all
    then have t: "at_nat tris (incidentTris ! j) = Inr (tris ! (incidentTris ! j))"
      by (simp add: at_nat_def)
    from PrevVertex_total [OF ok(2)] obtain prv where
      prv: "PrevVertex (tris ! (incidentTris ! j)) vIdx = Inr prv"
      by blast
    show ?thesis
    proof (cases "nxt = prv")
      case True
      with \<open>j < length incidentTris\<close> t prv show ?thesis
        by (subst find_match.simps) simp
    next
      case False
      from "1.IH" [OF True t prv False "1.prems"] obtain r where
        "find_match vIdx tris incidentTris nxt (j + 1) = Inr r"
        by blast
      with True t prv False show ?thesis
        by (subst find_match.simps) simp
    qed
  qed
qed

lemma sort_from_total:
  assumes "\<forall>x\<in>set inc. x < length tris \<and> in_triangle v (tris ! x)"
  shows "\<exists>res. sort_from v tris i inc = Inr res"
  using assms
proof (induction v tris i inc rule: sort_from.induct)
  case (1 vIdx tris i incidentTris)
  show ?case
  proof (cases "i < length incidentTris")
    case False
    then show ?thesis
      by (subst sort_from.simps) simp
  next
    case True
    then have "i - 1 < length incidentTris" by simp
    with "1.prems" have ok: "incidentTris ! (i - 1) < length tris"
      "in_triangle vIdx (tris ! (incidentTris ! (i - 1)))"
      using nth_mem by blast+
    then have t: "at_nat tris (incidentTris ! (i - 1)) = Inr (tris ! (incidentTris ! (i - 1)))"
      by (simp add: at_nat_def)
    from NextVertex_total [OF ok(2)] obtain nxt where
      nxt: "NextVertex (tris ! (incidentTris ! (i - 1))) vIdx = Inr nxt"
      by blast
    from find_match_total [OF "1.prems"] obtain r where
      r: "find_match vIdx tris incidentTris nxt (i + 1) = Inr r"
      by blast
    show ?thesis
    proof (cases r)
      case None
      from "1.IH"(1) [OF True t nxt r None "1.prems"] obtain res where
        "sort_from vIdx tris (i + 1) incidentTris = Inr res"
        by blast
      with True t nxt r None show ?thesis
        by (subst sort_from.simps) simp
    next
      case (Some j)
      from find_match_Some [OF r [unfolded Some]] have j: "j < length incidentTris"
        by simp
      let ?inc = "incidentTris[i := incidentTris ! j, j := incidentTris ! i]"
      from True j have "set ?inc = set incidentTris"
        by simp
      with "1.prems" have "\<forall>x\<in>set ?inc. x < length tris \<and> in_triangle vIdx (tris ! x)"
        by simp
      from "1.IH"(2) [OF True t nxt r Some this] obtain res where
        "sort_from vIdx tris (i + 1) ?inc = Inr res"
        by blast
      with True t nxt r Some show ?thesis
        by (subst sort_from.simps) simp
    qed
  qed
qed

lemma in_site_slice:
  assumes "x \<in> set (site_slice offs inds v)"
  shows "\<exists>p. offs ! v \<le> p \<and> p < offs ! (v + 1) \<and> p < length inds \<and> inds ! p = x"
proof -
  let ?a = "offs ! v" and ?b = "offs ! (v + 1)"
  from assms obtain m where m: "m < length (take (?b - ?a) (drop ?a inds))"
    and x: "take (?b - ?a) (drop ?a inds) ! m = x"
    by (auto simp: site_slice_def in_set_conv_nth)
  from m have "m < ?b - ?a" and "?a + m < length inds" by auto
  with x have "?a \<le> ?a + m \<and> ?a + m < ?b \<and> ?a + m < length inds \<and> inds ! (?a + m) = x"
    by simp
  then show ?thesis by blast
qed

lemma sort_pass_total:
  assumes len: "length (IncidentTriangleOffsets t0) = length (Vertices t0) + 1"
    and mono: "\<And>u. u < length (Vertices t0)
        \<Longrightarrow> IncidentTriangleOffsets t0 ! u \<le> IncidentTriangleOffsets t0 ! (u + 1)"
    and top: "IncidentTriangleOffsets t0 ! length (Vertices t0) \<le> length (IncidentTriangleIndices t0)"
    and valid: "slices_incident t0"
  shows "\<exists>t. efold sort_step [0..<length (Vertices t0)] t0 = Inr t \<and> slices_incident t"
proof -
  let ?n = "length (Vertices t0)"
  let ?offs = "IncidentTriangleOffsets t0"
  let ?I = "\<lambda>i::nat. \<lambda>a. Vertices a = Vertices t0 \<and> Triangles a = Triangles t0
    \<and> IncidentTriangleOffsets a = ?offs
    \<and> length (IncidentTriangleIndices a) = length (IncidentTriangleIndices t0)
    \<and> slices_incident a"
  have bound: "?offs ! u \<le> length (IncidentTriangleIndices t0)" if "u \<le> ?n" for u
  proof -
    have "?offs ! u \<le> ?offs ! ?n"
      using offsets_chain [of ?n ?offs u] mono that by simp
    with top show ?thesis by simp
  qed
  have step: "\<exists>b. sort_step i a = Inr b \<and> ?I (Suc i) b" if i: "i < ?n" and inv: "?I i a" for i a
  proof -
    let ?ia = "IncidentTriangleIndices a"
    from inv have f: "Vertices a = Vertices t0" "Triangles a = Triangles t0"
      "IncidentTriangleOffsets a = ?offs" "length ?ia = length (IncidentTriangleIndices t0)"
      and va: "slices_incident a"
      by simp_all
    have it: "IncidentTriangles a (int i) = Inr (site_slice ?offs ?ia i)"
      using i len f mono [OF i] bound [of "i + 1"]
      by (simp add: IncidentTriangles_def slice_def site_slice_def nat_add_distrib)
    from va f i have "\<forall>x\<in>set (site_slice ?offs ?ia i).
        x < length (Triangles a) \<and> in_triangle (int i) (Triangles a ! x)"
      by (simp add: slices_incident_iff)
    from sort_from_total [OF this] obtain sorted where
      srt: "sortIncidentTriangleIndicesCCW (int i) (site_slice ?offs ?ia i) (Triangles a) = Inr sorted"
      by (auto simp: sortIncidentTriangleIndicesCCW_def)
    from it srt f obtain b where b: "sort_step i a = Inr b"
      by (simp add: sort_step_def)
    from sort_step_Inr [OF b] f
    have fb: "Vertices b = Vertices t0" "Triangles b = Triangles t0"
      "IncidentTriangleOffsets b = ?offs"
      by simp_all
    from sort_step_length [OF b] f
    have lb: "length (IncidentTriangleIndices b) = length (IncidentTriangleIndices t0)"
      by simp
    let ?ib = "IncidentTriangleIndices b"
    from sort_step_slice [OF b] f srt
    have this_slice: "site_slice ?offs ?ib i = sorted"
      and same: "\<And>p. p < length ?ia \<Longrightarrow> p < ?offs ! i \<or> ?offs ! (i + 1) \<le> p
          \<Longrightarrow> ?ib ! p = ?ia ! p"
      by simp_all
    from srt have ms: "mset sorted = mset (site_slice ?offs ?ia i)"
      by (simp add: sortIncidentTriangleIndicesCCW_def sort_from_mset)
    have "x < length (Triangles b) \<and> in_triangle (int u) (Triangles b ! x)"
      if u: "u < ?n" and x: "x \<in> set (site_slice ?offs ?ib u)" for u x
    proof (cases "u = i")
      case True
      with x this_slice have "x \<in> set sorted" by simp
      with ms have "x \<in> set (site_slice ?offs ?ia i)"
        by (metis set_mset_mset)
      with va f fb True i show ?thesis
        by (simp add: slices_incident_iff)
    next
      case False
      from in_site_slice [OF x] obtain p where
        p: "?offs ! u \<le> p" "p < ?offs ! (u + 1)" "p < length ?ib" "?ib ! p = x"
        by blast
      have "p < ?offs ! i \<or> ?offs ! (i + 1) \<le> p"
      proof (cases "u < i")
        case True
        then have "?offs ! (u + 1) \<le> ?offs ! i"
          using offsets_chain [of i ?offs "u + 1"] mono i by simp
        with p(2) show ?thesis by simp
      next
        case False
        with \<open>u \<noteq> i\<close> have "i + 1 \<le> u" by simp
        then have "?offs ! (i + 1) \<le> ?offs ! u"
          using offsets_chain [of u ?offs "i + 1"] mono u by simp
        with p(1) show ?thesis by simp
      qed
      with same [of p] p lb f have eq: "?ia ! p = x" by simp
      from p lb f bound [of "u + 1"] u
      have "p - ?offs ! u < length (site_slice ?offs ?ia u)"
        by (simp add: site_slice_def)
      moreover from p lb f bound [of "u + 1"] u eq
      have "site_slice ?offs ?ia u ! (p - ?offs ! u) = x"
        by (simp add: site_slice_def)
      ultimately have "x \<in> set (site_slice ?offs ?ia u)"
        using nth_mem by blast
      with va f fb u show ?thesis
        by (simp add: slices_incident_iff)
    qed
    with fb have "slices_incident b"
      by (simp add: slices_incident_iff)
    with b fb lb show ?thesis by simp
  qed
  have "?I 0 t0"
    using valid by simp
  from efold_total [where I = ?I and f = sort_step, OF this step] show ?thesis
    by blast
qed

lemma in_triangle_sorted:
  assumes "sortTriangleVerticesCCW ops (raw_triangle ch j) vs = Inr t" and "r < 3"
  shows "in_triangle (ch ! (j * 3 + r)) t"
proof -
  from assms(2) consider "r = 0" | "r = 1" | "r = 2" by linarith
  then show ?thesis
    using sortTriangleVerticesCCW_Inr [OF assms(1) [unfolded raw_triangle_def]]
    by cases (auto simp: in_triangle_def)
qed

lemma in_range_sorted:
  assumes "sortTriangleVerticesCCW ops (raw_triangle ch j) vs = Inr t"
  shows "case t of (t0, t1, t2) \<Rightarrow>
        0 \<le> t0 \<and> t0 < int (length vs) \<and> 0 \<le> t1 \<and> t1 < int (length vs)
        \<and> 0 \<le> t2 \<and> t2 < int (length vs)"
  using sortTriangleVerticesCCW_Inr [OF assms [unfolded raw_triangle_def]] by auto

lemma NewTriangulation_total:
  assumes opts: "apply_setters setters \<lparr>Eps = defaultEps\<rparr> = Inr opts"
    and n: "4 \<le> length vs"
    and len: "length (ch vs (Eps opts)) = 3 * (2 * (length vs - 2))"
    and range: "\<forall>x\<in>set (ch vs (Eps opts)). 0 \<le> x \<and> x < int (length vs)"
  shows "\<exists>t. NewTriangulation ops ch vs setters = Inr t \<and> slices_incident t \<and> triangles_in_range t
    \<and> (\<forall>j<length (Triangles t).
          sortTriangleVerticesCCW ops (raw_triangle (ch vs (Eps opts)) j) vs = Inr (Triangles t ! j))"
proof -
  let ?n = "length vs"
  let ?m = "2 * (?n - 2)"
  let ?ch = "ch vs (Eps opts)"
  from range have "\<forall>x\<in>set ?ch. 0 \<le> x + 1 \<and> x + 1 < int (length (replicate (?n + 1) (0 :: nat)))"
    by auto
  from count_pass_total [OF this] obtain counted where
    counted: "count_pass ?ch (replicate (?n + 1) 0) = Inr counted"
    by blast
  let ?offs = "prefix_pass ?n counted"
  from count_pass_Inr [OF counted] have clen: "length counted = ?n + 1"
    and csum: "sum_list counted = length ?ch"
    by simp_all
  from clen have olen: "length ?offs = ?n + 1"
    using prefix_pass_nth [of ?n counted] by simp
  have step: "\<And>u. u < ?n \<Longrightarrow> ?offs ! (u + 1) = ?offs ! u + count_list ?ch (int u)"
    by (rule offsets_step [OF counted])
  from olen have "?offs \<noteq> []"
    by auto
  then have "?offs ! ?n = last ?offs"
    using olen by (simp add: last_conv_nth)
  also have "\<dots> = length ?ch"
    using prefix_pass_last [OF clen] csum by simp
  finally have top: "?offs ! ?n = ?m * 3"
    using len by simp
  have chlen: "length ?ch = ?m * 3"
    using len by simp
  have range': "\<And>k. k < length ?ch \<Longrightarrow> 0 \<le> ?ch ! k \<and> ?ch ! k < int ?n"
    using range by simp
  from place_pass_total [of ?ch ?m ?n ?offs "replicate (?m * 3) 0" vs "replicate ?m (0, 0, 0)" ops,
      OF chlen range' step] top olen
  obtain tris inds nxt where
    placed: "efold (place_step ops vs ?ch) [0..<?m]
        (replicate ?m (0, 0, 0), replicate (?m * 3) 0, take ?n ?offs) = Inr (tris, inds, nxt)"
    and lt: "length tris = ?m" and li: "length inds = ?m * 3"
    and tri: "\<And>j. j < ?m \<Longrightarrow> sortTriangleVerticesCCW ops (raw_triangle ?ch j) vs = Inr (tris ! j)"
    and filled: "\<And>v p. v < ?n \<Longrightarrow> ?offs ! v \<le> p \<Longrightarrow> p < ?offs ! (v + 1)
        \<Longrightarrow> \<exists>k'<?m * 3. ?ch ! k' = int v \<and> inds ! p = k' div 3"
    by auto
  let ?t0 = "\<lparr>Vertices = vs, Triangles = tris, IncidentTriangleIndices = inds,
              IncidentTriangleOffsets = ?offs\<rparr>"
  have valid0: "slices_incident ?t0"
    unfolding slices_incident_iff
  proof (intro allI impI ballI)
    fix v x
    assume v: "v < length (Vertices ?t0)"
      and x: "x \<in> set (site_slice (IncidentTriangleOffsets ?t0) (IncidentTriangleIndices ?t0) v)"
    from in_site_slice [of x ?offs inds v] x obtain p where
      p: "?offs ! v \<le> p" "p < ?offs ! (v + 1)" "inds ! p = x"
      by auto
    from filled [OF _ p(1,2)] v p(3) obtain k' where
      k': "k' < ?m * 3" "?ch ! k' = int v" "x = k' div 3"
      by auto
    from k'(1,3) have xm: "x < ?m" by simp
    have "k' = x * 3 + k' mod 3"
      using k'(3) by simp
    with in_triangle_sorted [OF tri [OF xm], of "k' mod 3"] k'(2)
    have "in_triangle (int v) (tris ! x)"
      by simp
    with xm lt show "x < length (Triangles ?t0) \<and> in_triangle (int v) (Triangles ?t0 ! x)"
      by simp
  qed
  have mono: "\<And>u. u < ?n \<Longrightarrow> ?offs ! u \<le> ?offs ! (u + 1)"
    using step by simp
  from sort_pass_total [of ?t0] olen mono top li valid0
  obtain t where sorted: "efold sort_step [0..<?n] ?t0 = Inr t" and valid: "slices_incident t"
    by auto
  from sort_pass_fields [OF sorted]
  have f: "Vertices t = vs" "Triangles t = tris"
    by simp_all
  have "triangles_in_range t"
    unfolding triangles_in_range_def
  proof
    fix tr assume "tr \<in> set (Triangles t)"
    with f lt obtain j where "j < ?m" "tris ! j = tr"
      by (auto simp: in_set_conv_nth)
    with in_range_sorted [OF tri [of j]] f
    show "case tr of (t0, t1, t2) \<Rightarrow>
        0 \<le> t0 \<and> t0 < int (length (Vertices t)) \<and> 0 \<le> t1 \<and> t1 < int (length (Vertices t))
        \<and> 0 \<le> t2 \<and> t2 < int (length (Vertices t))"
      by simp
  qed
  moreover have "NewTriangulation ops ch vs setters = Inr t"
    using opts n len counted placed sorted
    by (simp add: NewTriangulation_def Let_def mult.commute)
  moreover have "\<forall>j<length (Triangles t).
      sortTriangleVerticesCCW ops (raw_triangle ?ch j) vs = Inr (Triangles t ! j)"
    using tri f lt by simp
  ultimately show ?thesis
    using valid by blast
qed

lemma NewTriangulation_conditions:
  assumes ok: "NewTriangulation ops ch vs setters = Inr t"
  shows "\<exists>opts. apply_setters setters \<lparr>Eps = defaultEps\<rparr> = Inr opts
    \<and> 4 \<le> length vs
    \<and> length (ch vs (Eps opts)) = 3 * (2 * (length vs - 2))
    \<and> (\<forall>x\<in>set (ch vs (Eps opts)). 0 \<le> x \<and> x < int (length vs))"
proof -
  from NewTriangulation_Inr [OF ok] obtain given counted placed where
    opts: "apply_setters setters \<lparr>Eps = defaultEps\<rparr> = Inr given" and n: "4 \<le> length vs" and
    len: "length (ch vs (Eps (given :: TriangulationOptions))) = 2 * (length vs - 2) * 3" and
    counted: "count_pass (ch vs (Eps given)) (replicate (length vs + 1) 0) = Inr counted" and
    placed: "efold (place_step ops vs (ch vs (Eps given))) [0..<2 * (length vs - 2)]
        (replicate (2 * (length vs - 2)) (0, 0, 0), replicate (2 * (length vs - 2) * 3) 0,
         take (length vs) (prefix_pass (length vs) counted)) = Inr placed"
    by blast
  let ?ch = "ch vs (Eps given)"
  obtain tris inds nxt where p: "placed = (tris, inds, nxt)" by (cases placed)
  note pl = place_pass_Inr [OF placed [unfolded p]]
  from count_pass_Inr [OF counted] have "length counted = length vs + 1" by simp
  then have "length (prefix_pass (length vs) counted) = length vs + 1"
    using prefix_pass_nth [of "length vs" counted] by simp
  with pl have r: "\<And>k. k < 2 * (length vs - 2) * 3 \<Longrightarrow> 0 \<le> ?ch ! k \<and> ?ch ! k < int (length vs)"
    by simp
  have "0 \<le> x \<and> x < int (length vs)" if "x \<in> set ?ch" for x
  proof -
    from that obtain k where "k < length ?ch" and "?ch ! k = x"
      by (auto simp: in_set_conv_nth)
    with r [of k] len show ?thesis by simp
  qed
  with opts n len show ?thesis
    by (intro exI [of _ given]) simp
qed

text \<open>
  On a successful construction every entry of a site's slice is a triangle with that site
  as a vertex, every vertex of a triangle is a site, and the triangle with index \<open>j\<close> is
  what the orientation pass makes of the \<open>j\<close>-th triple of the hull output.
\<close>

lemma NewTriangulation_incident:
  assumes ok: "NewTriangulation ops ch vs setters = Inr t"
  shows "slices_incident t \<and> triangles_in_range t
    \<and> (\<forall>opts j. apply_setters setters \<lparr>Eps = defaultEps\<rparr> = Inr opts \<and> j < length (Triangles t)
          \<longrightarrow> sortTriangleVerticesCCW ops (raw_triangle (ch vs (Eps opts)) j) vs
                = Inr (Triangles t ! j))"
proof -
  from NewTriangulation_conditions [OF ok] obtain opts where
    c: "apply_setters setters \<lparr>Eps = defaultEps\<rparr> = Inr opts" "4 \<le> length vs"
    "length (ch vs (Eps opts)) = 3 * (2 * (length vs - 2))"
    "\<forall>x\<in>set (ch vs (Eps opts)). 0 \<le> x \<and> x < int (length vs)"
    by blast
  from NewTriangulation_total [where ch = ch and ops = ops, OF c] ok c(1) show ?thesis
    by auto
qed

lemma circum_pass_total:
  assumes "triangles_in_range dt" and "n \<le> length (Triangles dt)" and "n \<le> length vs"
  shows "\<exists>vs'. efold (circum_step ops dt) [0..<n] vs = Inr vs'"
proof -
  let ?I = "\<lambda>i::nat. \<lambda>a :: Vector list. length a = length vs"
  have "\<exists>b. circum_step ops dt i a = Inr b \<and> ?I (Suc i) b" if i: "i < n" and inv: "?I i a" for i a
  proof -
    obtain t0 t1 t2 where t: "Triangles dt ! i = (t0, t1, t2)"
      by (cases "Triangles dt ! i")
    from i assms(2) have "Triangles dt ! i \<in> set (Triangles dt)"
      by simp
    with assms(1) t have "0 \<le> t0 \<and> t0 < int (length (Vertices dt))
        \<and> 0 \<le> t1 \<and> t1 < int (length (Vertices dt)) \<and> 0 \<le> t2 \<and> t2 < int (length (Vertices dt))"
      by (auto simp: triangles_in_range_def)
    with t i assms(2) have "\<exists>ps. TriangleVertices dt (int i) = Inr ps"
      by (simp add: TriangleVertices_def at_int_def)
    then obtain ps where ps: "TriangleVertices dt (int i) = Inr ps"
      by blast
    obtain p0 p1 p2 where "ps = (p0, p1, p2)" by (cases ps)
    with ps i inv assms(3) show ?thesis
      by (simp add: circum_step_def)
  qed
  from efold_total [where I = ?I and f = "circum_step ops dt" and s = vs and n = n, OF _ this]
  show ?thesis by blast
qed

lemma neighbor_writes_total:
  assumes "\<forall>x\<in>set it. x < length (Triangles dt) \<and> in_triangle (int v) (Triangles dt ! x)"
    and "off + length it \<le> length cn"
  shows "\<exists>cn'. efold (neighbor_write dt v off it) [0..<length it] cn = Inr cn'
    \<and> length cn' = length cn"
proof -
  let ?I = "\<lambda>i::nat. \<lambda>a :: int list. length a = length cn"
  have "\<exists>b. neighbor_write dt v off it i a = Inr b \<and> ?I (Suc i) b"
    if i: "i < length it" and inv: "?I i a" for i a
  proof -
    from i assms(1) have ok: "it ! i < length (Triangles dt)"
      "in_triangle (int v) (Triangles dt ! (it ! i))"
      by simp_all
    from NextVertex_total [OF ok(2)] obtain w where
      "NextVertex (Triangles dt ! (it ! i)) (int v) = Inr w"
      by blast
    with ok(1) i inv assms(2) show ?thesis
      by (simp add: neighbor_write_def at_nat_def)
  qed
  from efold_total [where I = ?I and f = "neighbor_write dt v off it" and s = cn
      and n = "length it", OF _ this]
  show ?thesis by blast
qed

lemma NewDiagram_total:
  assumes dt: "NewTriangulation ops ch sites [WithEps (if eps = 0 then defaultEps else eps)] = Inr dt"
  shows "\<exists>d. NewDiagram ops ch sites eps = Inr d"
proof -
  let ?offs = "IncidentTriangleOffsets dt"
  let ?inds = "IncidentTriangleIndices dt"
  from NewTriangulation_incident [OF dt] have inc: "slices_incident dt" and rng: "triangles_in_range dt"
    by simp_all
  from NewTriangulation_offsets [OF dt] have vs: "Vertices dt = sites"
    and olen: "length ?offs = length sites + 1"
    by simp_all
  from circum_pass_total [OF rng, of "length (Triangles dt)"
      "replicate (length (Triangles dt)) (Vector 0 0 0)"]
  obtain vs' where circ: "efold (circum_step ops dt) [0..<length (Triangles dt)]
      (replicate (length (Triangles dt)) (Vector 0 0 0)) = Inr vs'"
    by auto
  let ?I = "\<lambda>i::nat. \<lambda>a :: int list. length a = length ?inds"
  have "\<exists>b. neighbor_step dt v a = Inr b \<and> ?I (Suc v) b"
    if v: "v < length (Vertices dt)" and inv: "?I v a" for v a
  proof -
    let ?it = "site_slice ?offs ?inds v"
    from v vs have v': "v < length sites" by simp
    from IncidentTriangles_total [OF dt v'] have it: "IncidentTriangles dt (int v) = Inr ?it" .
    then have le: "?offs ! v \<le> ?offs ! (v + 1)" "?offs ! (v + 1) \<le> length ?inds"
      by (auto simp: IncidentTriangles_def slice_Inr nat_add_distrib split: if_splits)
    then have len: "?offs ! v + length ?it \<le> length a"
      using inv by (simp add: site_slice_def)
    from inc v have "\<forall>x\<in>set ?it. x < length (Triangles dt) \<and> in_triangle (int v) (Triangles dt ! x)"
      by (simp add: slices_incident_iff)
    from neighbor_writes_total [OF this len] obtain b where
      "efold (neighbor_write dt v (?offs ! v) ?it) [0..<length ?it] a = Inr b"
      "length b = length a"
      by blast
    with it v' olen inv show ?thesis
      by (simp add: neighbor_step_def at_nat_def)
  qed
  from efold_total [where I = ?I and f = "neighbor_step dt"
      and s = "replicate (length ?inds) 0" and n = "length (Vertices dt)", OF _ this]
  obtain cn where "efold (neighbor_step dt) [0..<length (Vertices dt)]
      (replicate (length ?inds) 0) = Inr cn"
    by auto
  with dt circ show ?thesis
    by (simp add: NewDiagram_def Let_def)
qed

lemma NewDiagram_fails_upstream:
  "NewDiagram ops ch sites eps = Inl e
     \<longleftrightarrow> NewTriangulation ops ch sites [WithEps (if eps = 0 then defaultEps else eps)] = Inl e"
proof (cases "NewTriangulation ops ch sites [WithEps (if eps = 0 then defaultEps else eps)]")
  case (Inl e')
  then show ?thesis
    by (simp add: NewDiagram_def Let_def)
next
  case (Inr dt)
  from NewDiagram_total [OF Inr] Inr show ?thesis
    by auto
qed

subsection \<open>The orientation pass\<close>

text \<open>
  Claim C5, as amended. For every raw triangle of a successful construction, the
  orientation pass takes the cross product of the two edge vectors at the first vertex
  of the triangle and tests its dot product with that first vertex (not with the vertex
  sum), as the vector library computes it: the triangle is stored with its last two
  vertices swapped if and only if the computed value is negative. In exact arithmetic
  that value is a third of the test against the vertex-sum direction: there the swap
  happens if and only if the test against the vertex sum is negative, and a swapped
  triangle is counter-clockwise seen from outside the sphere.
\<close>

theorem orientation_pass:
  assumes ok: "NewTriangulation ops ch vs setters = Inr t" and j: "j < length (Triangles t)"
  shows "\<exists>opts t0 t1 t2 p0 p1 p2.
      apply_setters setters \<lparr>Eps = defaultEps\<rparr> = Inr opts
    \<and> raw_triangle (ch vs (Eps opts)) j = (t0, t1, t2)
    \<and> at_int vs t0 = Inr p0 \<and> at_int vs t1 = Inr p1 \<and> at_int vs t2 = Inr p2
    \<and> Triangles t ! j =
         (if Dot ops (Cross ops (Sub ops p1 p0) (Sub ops p2 p0)) p0 < 0 then (t0, t2, t1)
          else (t0, t1, t2))
    \<and> (ops = exact_r3 \<longrightarrow>
          Triangles t ! j =
            (if vertex_sum_orientation exact_r3 p0 p1 p2 < 0 then (t0, t2, t1) else (t0, t1, t2))
        \<and> (vertex_sum_orientation exact_r3 p0 p1 p2 < 0
              \<longrightarrow> 0 < vertex_sum_orientation exact_r3 p0 p2 p1))"
proof -
  from NewTriangulation_conditions [OF ok] obtain opts :: TriangulationOptions where
    opts: "apply_setters setters \<lparr>Eps = defaultEps\<rparr> = Inr opts"
    by blast
  let ?ch = "ch vs (Eps opts)"
  obtain t0 t1 t2 where raw: "raw_triangle ?ch j = (t0, t1, t2)"
    by (cases "raw_triangle ?ch j")
  from NewTriangulation_incident [OF ok] opts j raw
  have s: "sortTriangleVerticesCCW ops (t0, t1, t2) vs = Inr (Triangles t ! j)"
    by auto
  then obtain p0 p1 p2 where p: "at_int vs t0 = Inr p0" "at_int vs t1 = Inr p1"
    "at_int vs t2 = Inr p2"
    by (auto simp: sortTriangleVerticesCCW_def ebind_eq_Inr)
  with s have stored: "Triangles t ! j =
      (if Dot ops (Cross ops (Sub ops p1 p0) (Sub ops p2 p0)) p0 < 0 then (t0, t2, t1)
       else (t0, t1, t2))"
    by (simp add: sortTriangleVerticesCCW_def Let_def split: if_splits)
  have "Triangles t ! j =
      (if vertex_sum_orientation exact_r3 p0 p1 p2 < 0 then (t0, t2, t1) else (t0, t1, t2))"
    if "ops = exact_r3"
    using stored that by (simp add: vertex_sum_orientation_eq)
  moreover have "vertex_sum_orientation exact_r3 p0 p1 p2 < 0
      \<longrightarrow> 0 < vertex_sum_orientation exact_r3 p0 p2 p1"
    by (simp add: vertex_sum_orientation_swap [of p0 p1 p2])
  ultimately show ?thesis
    using opts raw p stored by blast
qed

theorem orientation_pass_witness:
  "NewTriangulation exact_r3 tetra_hull tetra [] = Inr tetra_triangulation
   \<and> 1 < length (Triangles tetra_triangulation)
   \<and> apply_setters [] \<lparr>Eps = defaultEps\<rparr> = Inr \<lparr>Eps = defaultEps\<rparr>
   \<and> raw_triangle (tetra_hull tetra defaultEps) 1 = (0, 3, 2)
   \<and> at_int tetra 0 = Inr (Vector 1 0 0)
   \<and> at_int tetra 3 = Inr (Vector (- 1 / 3) (- 2 / 3) (- 2 / 3))
   \<and> at_int tetra 2 = Inr (Vector 0 0 1)
   \<and> vertex_sum_orientation exact_r3
        (Vector 1 0 0) (Vector (- 1 / 3) (- 2 / 3) (- 2 / 3)) (Vector 0 0 1) < 0
   \<and> Triangles tetra_triangulation ! 1 = (0, 2, 3)
   \<and> 0 < vertex_sum_orientation exact_r3
        (Vector 1 0 0) (Vector 0 0 1) (Vector (- 1 / 3) (- 2 / 3) (- 2 / 3))"
proof -
  have j: "1 < length (Triangles tetra_triangulation)"
    by (simp add: tetra_triangulation_def)
  have o: "apply_setters [] \<lparr>Eps = defaultEps\<rparr> = Inr \<lparr>Eps = defaultEps\<rparr>"
    by simp
  have raw: "raw_triangle (tetra_hull tetra defaultEps) 1 = (0, 3, 2)"
    by (simp add: raw_triangle_def tetra_hull_def)
  have a: "at_int tetra 0 = Inr (Vector 1 0 0)"
    and b: "at_int tetra 3 = Inr (Vector (- 1 / 3) (- 2 / 3) (- 2 / 3))"
    and c: "at_int tetra 2 = Inr (Vector 0 0 1)"
    by (simp_all add: at_int_def tetra_def)
  have neg: "vertex_sum_orientation exact_r3
      (Vector 1 0 0) (Vector (- 1 / 3) (- 2 / 3) (- 2 / 3)) (Vector 0 0 1) < 0"
    by (simp add: vertex_sum_orientation_def exact_r3_simps)
  from orientation_pass [OF NewTriangulation_tetra j] obtain opts t0 t1 t2 p0 p1 p2 where
    w: "apply_setters [] \<lparr>Eps = defaultEps\<rparr> = Inr opts"
      "raw_triangle (tetra_hull tetra (Eps opts)) 1 = (t0, t1, t2)"
      "at_int tetra t0 = Inr p0" "at_int tetra t1 = Inr p1" "at_int tetra t2 = Inr p2"
      "exact_r3 = exact_r3 \<longrightarrow>
          Triangles tetra_triangulation ! 1 =
            (if vertex_sum_orientation exact_r3 p0 p1 p2 < 0 then (t0, t2, t1) else (t0, t1, t2))
        \<and> (vertex_sum_orientation exact_r3 p0 p1 p2 < 0
              \<longrightarrow> 0 < vertex_sum_orientation exact_r3 p0 p2 p1)"
    by blast
  from w(2) have "t0 = 0" "t1 = 3" "t2 = 2"
    by (simp_all add: raw_triangle_def tetra_hull_def)
  with w(3,4,5) a b c have "p0 = Vector 1 0 0" "p1 = Vector (- 1 / 3) (- 2 / 3) (- 2 / 3)"
    "p2 = Vector 0 0 1"
    by simp_all
  with w(6) neg \<open>t0 = 0\<close> \<open>t1 = 3\<close> \<open>t2 = 2\<close>
  have "Triangles tetra_triangulation ! 1 = (0, 2, 3)"
    and "0 < vertex_sum_orientation exact_r3
        (Vector 1 0 0) (Vector 0 0 1) (Vector (- 1 / 3) (- 2 / 3) (- 2 / 3))"
    by simp_all
  with NewTriangulation_tetra j o raw a b c neg show ?thesis
    by simp
qed

text \<open>
  The claim as stated fails in \<open>float64\<close> arithmetic. The first three sites of
  \<open>circle_sites\<close> are \<open>(1, 0, 0)\<close>, \<open>(0, 0.6, 0.8)\<close> and \<open>(-0.6, 0.48, 0.64)\<close>.
  For the raw triangle \<open>(0, 1, 2)\<close> the test against the vertex sum is negative, in
  exact arithmetic and in \<open>float64\<close> arithmetic alike; the two products
  \<open>0.6 * 0.64\<close> and \<open>0.8 * 0.48\<close> round to the same number, so the value that the
  code tests is \<open>0\<close>, and the triangle is stored as it is.
\<close>

theorem orientation_pass_rounding:
  "NewTriangulation float64_r3 circle_hull circle_sites [] = Inr circle_triangulation
   \<and> raw_triangle (circle_hull circle_sites defaultEps) 0 = (0, 1, 2)
   \<and> Triangles circle_triangulation ! 0 = (0, 1, 2)
   \<and> vertex_sum_orientation exact_r3 (circle_sites ! 0) (circle_sites ! 1) (circle_sites ! 2) < 0
   \<and> vertex_sum_orientation float64_r3 (circle_sites ! 0) (circle_sites ! 1) (circle_sites ! 2) < 0
   \<and> Dot float64_r3
        (Cross float64_r3 (Sub float64_r3 (circle_sites ! 1) (circle_sites ! 0))
           (Sub float64_r3 (circle_sites ! 2) (circle_sites ! 0)))
        (circle_sites ! 0) = 0"
proof -
  have "raw_triangle (circle_hull circle_sites defaultEps) 0 = (0, 1, 2)"
    "Triangles circle_triangulation ! 0 = (0, 1, 2)"
    by (simp_all add: raw_triangle_def circle_hull_def circle_triangulation_def)
  moreover have
    "vertex_sum_orientation exact_r3 (circle_sites ! 0) (circle_sites ! 1) (circle_sites ! 2) < 0"
    by code_simp
  moreover have
    "vertex_sum_orientation float64_r3 (circle_sites ! 0) (circle_sites ! 1) (circle_sites ! 2) < 0"
    by code_simp
  moreover have "Dot float64_r3
        (Cross float64_r3 (Sub float64_r3 (circle_sites ! 1) (circle_sites ! 0))
           (Sub float64_r3 (circle_sites ! 2) (circle_sites ! 0)))
        (circle_sites ! 0) = 0"
    by code_simp
  ultimately show ?thesis
    using NewTriangulation_circle by simp
qed

subsection \<open>The order of a site's slice\<close>

text \<open>
  Claim C1, as amended. For every successfully constructed Triangulation and every
  site index \<open>v\<close>, the incident-triangle slice \<open>indices[offsets[v] : offsets[v+1]]\<close>
  exists; and if the triangles of that slice, as they are stored after the orientation
  pass, can be arranged in a closed fan around \<open>v\<close> (a cycle in which \<open>NextVertex\<close>
  of each triangle at \<open>v\<close> is \<open>PrevVertex\<close> of the following one, with pairwise
  distinct \<open>PrevVertex\<close> at \<open>v\<close>), then the slice is so ordered: for every pair of
  consecutive entries \<open>(t\<^sub>k\<^sub>-\<^sub>1, t\<^sub>k)\<close>, \<open>NextVertex(Triangles[t\<^sub>k\<^sub>-\<^sub>1], v)\<close> equals
  \<open>PrevVertex(Triangles[t\<^sub>k], v)\<close>. In particular the slice is so ordered when the
  triples of the hull output can be arranged in a closed fan around \<open>v\<close> and the
  orientation pass leaves every triangle of the slice as the hull output lists it.
\<close>

theorem incident_triangles_fan_ordered:
  assumes ok: "NewTriangulation ops ch vs setters = Inr t" and v: "v < length vs"
  shows "\<exists>xs opts. IncidentTriangles t (int v) = Inr xs
    \<and> apply_setters setters \<lparr>Eps = defaultEps\<rparr> = Inr opts
    \<and> (\<forall>ys. mset ys = mset xs \<and> closed_fan (Triangles t) (int v) ys
          \<longrightarrow> (\<forall>k. 0 < k \<and> k < length xs
                  \<longrightarrow> links (Triangles t) (int v) (xs ! (k - 1)) (xs ! k)))
    \<and> (\<forall>ys. mset ys = mset xs \<and> closed_fan (raw_triangles (ch vs (Eps opts))) (int v) ys
            \<and> (\<forall>j\<in>set xs. sortTriangleVerticesCCW ops (raw_triangle (ch vs (Eps opts)) j) vs
                              = Inr (raw_triangle (ch vs (Eps opts)) j))
          \<longrightarrow> (\<forall>k. 0 < k \<and> k < length xs
                  \<longrightarrow> links (Triangles t) (int v) (xs ! (k - 1)) (xs ! k)))"
proof -
  let ?xs = "site_slice (IncidentTriangleOffsets t) (IncidentTriangleIndices t) v"
  from NewTriangulation_Inr [OF ok] obtain t0 where
    sorted: "efold sort_step [0..<length vs] t0 = Inr t"
    by blast
  from sort_pass_fields [OF sorted]
  have f: "Triangles t0 = Triangles t" "IncidentTriangleOffsets t0 = IncidentTriangleOffsets t"
    by simp_all
  let ?raw = "site_slice (IncidentTriangleOffsets t0) (IncidentTriangleIndices t0) v"
  from sort_pass_slices [OF sorted] v f
  have srt: "sortIncidentTriangleIndicesCCW (int v) ?raw (Triangles t) = Inr ?xs"
    by simp
  then have ms: "mset ?xs = mset ?raw"
    by (simp add: sortIncidentTriangleIndicesCCW_def sort_from_mset)
  have A: "links (Triangles t) (int v) (?xs ! (k - 1)) (?xs ! k)"
    if ys: "mset ys = mset ?xs" "closed_fan (Triangles t) (int v) ys"
      and k: "0 < k" "k < length ?xs" for ys k
  proof -
    from ys(1) ms have "mset ys = mset ?raw" by simp
    from sort_closed_fan [OF srt this ys(2)] obtain n where "?xs = rotate n ys"
      by blast
    with ys(2) have "closed_fan (Triangles t) (int v) ?xs"
      by (simp add: closed_fan_rotate)
    then have "fan_ordered (Triangles t) (int v) ?xs"
      by (rule closed_fan_ordered)
    with k show ?thesis
      by (simp add: fan_ordered_iff)
  qed
  from NewTriangulation_conditions [OF ok] obtain opts :: TriangulationOptions where
    opts: "apply_setters setters \<lparr>Eps = defaultEps\<rparr> = Inr opts"
    and len: "length (ch vs (Eps opts)) = 3 * (2 * (length vs - 2))"
    by blast
  let ?ch = "ch vs (Eps opts)"
  from NewTriangulation_offsets [OF ok] have vt: "Vertices t = vs"
    and lt: "length (Triangles t) = 2 * (length vs - 2)"
    by simp_all
  from NewTriangulation_incident [OF ok] opts
  have inc: "slices_incident t"
    and stored: "\<And>j. j < length (Triangles t)
      \<Longrightarrow> sortTriangleVerticesCCW ops (raw_triangle ?ch j) vs = Inr (Triangles t ! j)"
    by simp_all
  from len lt have lr: "length (raw_triangles ?ch) = length (Triangles t)"
    by (simp add: raw_triangles_def)
  have B: "links (Triangles t) (int v) (?xs ! (k - 1)) (?xs ! k)"
    if ys: "mset ys = mset ?xs" "closed_fan (raw_triangles ?ch) (int v) ys"
      and same: "\<forall>j\<in>set ?xs. sortTriangleVerticesCCW ops (raw_triangle ?ch j) vs
                              = Inr (raw_triangle ?ch j)"
      and k: "0 < k" "k < length ?xs" for ys k
  proof -
    have "at_nat (raw_triangles ?ch) j = at_nat (Triangles t) j" if j: "j \<in> set ys" for j
    proof -
      from closed_fan_at [OF ys(2) j] lr have jl: "j < length (Triangles t)"
        by simp
      from j ys(1) have "j \<in> set ?xs"
        by (metis mset_eq_setD)
      with same stored [OF jl] have "Triangles t ! j = raw_triangle ?ch j"
        by simp
      moreover from jl lr have "raw_triangles ?ch ! j = raw_triangle ?ch j"
        by (simp add: raw_triangles_def)
      ultimately show ?thesis
        using jl lr by (simp add: at_nat_def)
    qed
    then have "closed_fan (raw_triangles ?ch) (int v) ys \<longleftrightarrow> closed_fan (Triangles t) (int v) ys"
      by (rule closed_fan_cong)
    with ys(2) have "closed_fan (Triangles t) (int v) ys"
      by simp
    from A [OF ys(1) this k] show ?thesis .
  qed
  from IncidentTriangles_total [OF ok v] opts A B show ?thesis
    by blast
qed

lemma IncidentTriangles_tetra_1: "IncidentTriangles tetra_triangulation 1 = Inr [0, 2, 3]"
  by code_simp

lemma closed_fan_tetra_1: "closed_fan (Triangles tetra_triangulation) 1 [2, 3, 0]"
  by code_simp

lemma closed_fan_raw_tetra_1: "closed_fan (raw_triangles (tetra_hull tetra defaultEps)) 1 [2, 3, 0]"
  by code_simp

lemma unswapped_tetra_1:
  "sortTriangleVerticesCCW exact_r3 (raw_triangle (tetra_hull tetra defaultEps) 0) tetra
     = Inr (raw_triangle (tetra_hull tetra defaultEps) 0)"
  "sortTriangleVerticesCCW exact_r3 (raw_triangle (tetra_hull tetra defaultEps) 2) tetra
     = Inr (raw_triangle (tetra_hull tetra defaultEps) 2)"
  "sortTriangleVerticesCCW exact_r3 (raw_triangle (tetra_hull tetra defaultEps) 3) tetra
     = Inr (raw_triangle (tetra_hull tetra defaultEps) 3)"
  by code_simp+

theorem incident_triangles_fan_ordered_witness:
  "NewTriangulation exact_r3 tetra_hull tetra [] = Inr tetra_triangulation
   \<and> 1 < length tetra
   \<and> IncidentTriangles tetra_triangulation 1 = Inr [0, 2, 3]
   \<and> apply_setters [] \<lparr>Eps = defaultEps\<rparr> = Inr \<lparr>Eps = defaultEps\<rparr>
   \<and> mset [2, 3, 0] = mset [0, 2, 3 :: nat]
   \<and> closed_fan (Triangles tetra_triangulation) 1 [2, 3, 0]
   \<and> closed_fan (raw_triangles (tetra_hull tetra defaultEps)) 1 [2, 3, 0]
   \<and> sortTriangleVerticesCCW exact_r3 (raw_triangle (tetra_hull tetra defaultEps) 0) tetra
       = Inr (raw_triangle (tetra_hull tetra defaultEps) 0)
   \<and> sortTriangleVerticesCCW exact_r3 (raw_triangle (tetra_hull tetra defaultEps) 2) tetra
       = Inr (raw_triangle (tetra_hull tetra defaultEps) 2)
   \<and> sortTriangleVerticesCCW exact_r3 (raw_triangle (tetra_hull tetra defaultEps) 3) tetra
       = Inr (raw_triangle (tetra_hull tetra defaultEps) 3)
   \<and> links (Triangles tetra_triangulation) 1 0 2
   \<and> links (Triangles tetra_triangulation) 1 2 3"
proof -
  have v: "1 < length tetra"
    by (simp add: tetra_def)
  have ms: "mset [2, 3, 0] = mset [0, 2, 3 :: nat]"
    by simp
  from incident_triangles_fan_ordered [OF NewTriangulation_tetra v] obtain xs opts where
    xs: "IncidentTriangles tetra_triangulation (int 1) = Inr xs"
    and opts: "apply_setters [] \<lparr>Eps = defaultEps\<rparr> = Inr opts"
    and A: "\<forall>ys. mset ys = mset xs \<and> closed_fan (Triangles tetra_triangulation) (int 1) ys
          \<longrightarrow> (\<forall>k. 0 < k \<and> k < length xs
                  \<longrightarrow> links (Triangles tetra_triangulation) (int 1) (xs ! (k - 1)) (xs ! k))"
    and B: "\<forall>ys. mset ys = mset xs
            \<and> closed_fan (raw_triangles (tetra_hull tetra (Eps opts))) (int 1) ys
            \<and> (\<forall>j\<in>set xs.
                  sortTriangleVerticesCCW exact_r3 (raw_triangle (tetra_hull tetra (Eps opts)) j) tetra
                    = Inr (raw_triangle (tetra_hull tetra (Eps opts)) j))
          \<longrightarrow> (\<forall>k. 0 < k \<and> k < length xs
                  \<longrightarrow> links (Triangles tetra_triangulation) (int 1) (xs ! (k - 1)) (xs ! k))"
    by blast
  from xs have x: "xs = [0, 2, 3]"
    by (simp add: IncidentTriangles_tetra_1)
  from opts have o: "opts = \<lparr>Eps = defaultEps\<rparr>"
    by simp
  have un: "\<forall>j\<in>set xs.
      sortTriangleVerticesCCW exact_r3 (raw_triangle (tetra_hull tetra (Eps opts)) j) tetra
        = Inr (raw_triangle (tetra_hull tetra (Eps opts)) j)"
    using unswapped_tetra_1 x o by simp
  from A [rule_format, of "[2, 3, 0]" 1] x ms closed_fan_tetra_1
  have "links (Triangles tetra_triangulation) 1 0 2"
    by simp
  moreover from B [rule_format, of "[2, 3, 0]" 2] x o ms closed_fan_raw_tetra_1 un
  have "links (Triangles tetra_triangulation) 1 2 3"
    by simp
  ultimately have "links (Triangles tetra_triangulation) 1 0 2 \<and> links (Triangles tetra_triangulation) 1 2 3"
    by simp
  with NewTriangulation_tetra v IncidentTriangles_tetra_1 ms closed_fan_tetra_1
    closed_fan_raw_tetra_1 unswapped_tetra_1 show ?thesis
    by simp
qed

text \<open>
  The claim as stated, for every successful construction, fails on the four sites of
  \<open>octant\<close> with the faces of their hull, correctly oriented: around site \<open>0\<close> the
  triples of the hull output form the closed fan \<open>0, 2, 1\<close>. The sites lie in one
  hemisphere, so the first face looks towards the origin; the orientation pass tests it
  against its first vertex and reverses it. The construction succeeds, and in the slice
  \<open>0, 1, 2\<close> of site \<open>0\<close> the triangles \<open>0\<close> and \<open>1\<close> are not linked:
  \<open>NextVertex\<close> of the first is \<open>1\<close>, \<open>PrevVertex\<close> of the second is \<open>3\<close>.
\<close>

theorem incident_triangles_unordered:
  "NewTriangulation exact_r3 octant_hull octant [] = Inr octant_triangulation
   \<and> closed_fan (raw_triangles (octant_hull octant defaultEps)) 0 [0, 2, 1]
   \<and> IncidentTriangles octant_triangulation 0 = Inr [0, 1, 2]
   \<and> NextVertex (Triangles octant_triangulation ! 0) 0 = Inr 1
   \<and> PrevVertex (Triangles octant_triangulation ! 1) 0 = Inr 3"
proof -
  have "closed_fan (raw_triangles (octant_hull octant defaultEps)) 0 [0, 2, 1]"
    "IncidentTriangles octant_triangulation 0 = Inr [0, 1, 2]"
    "NextVertex (Triangles octant_triangulation ! 0) 0 = Inr 1"
    "PrevVertex (Triangles octant_triangulation ! 1) 0 = Inr 3"
    by code_simp+
  with NewTriangulation_octant show ?thesis by simp
qed

subsection \<open>A slot without a match\<close>

lemma NewTriangulation_repeat: "NewTriangulation exact_r3 repeat_hull tetra [] = Inr repeat_triangulation"
  by code_simp

lemma efold_error:
  assumes "efold f xs s = Inl e"
  shows "\<exists>x a. f x a = Inl e"
  using assms
proof (induction xs arbitrary: s)
  case Nil
  then show ?case by simp
next
  case (Cons x xs)
  then show ?case
    by (cases "f x s") auto
qed

lemma count_pass_error: "count_pass ch offs = Inl e \<Longrightarrow> e = Panic"
  by (induction ch arbitrary: offs) (auto split: if_splits)

lemma at_int_error: "at_int xs i = Inl e \<Longrightarrow> e = Panic"
  by (auto simp: at_int_def split: if_splits)

lemma at_nat_error: "at_nat xs i = Inl e \<Longrightarrow> e = Panic"
  by (auto simp: at_nat_def split: if_splits)

lemma place1_error: "place1 i v st = Inl e \<Longrightarrow> e = Panic"
  by (cases st) (auto simp: place1_def ebind_eq_Inl dest: at_int_error split: if_splits)

lemma sortTriangleVerticesCCW_error: "sortTriangleVerticesCCW ops t v = Inl e \<Longrightarrow> e = Panic"
  by (cases t) (auto simp: sortTriangleVerticesCCW_def ebind_eq_Inl Let_def
      dest: at_int_error split: if_splits)

lemma place_step_error: "place_step ops vs ch i st = Inl e \<Longrightarrow> e = Panic"
  by (cases st)
    (auto simp: place_step_def ebind_eq_Inl Let_def
      dest: place1_error sortTriangleVerticesCCW_error)

lemma sort_from_error:
  "sort_from v tris i inc = Inl e \<Longrightarrow> e = Panic"
proof (induction v tris i inc rule: sort_from.induct)
  case (1 vIdx tris i incidentTris)
  from "1.prems" have lt: "i < length incidentTris"
    by (subst (asm) sort_from.simps) (simp split: if_splits)
  show ?case
  proof (cases "at_nat tris (incidentTris ! (i - 1))")
    case (Inl e')
    with "1.prems" lt show ?thesis
      by (subst (asm) sort_from.simps) (simp add: at_nat_error)
  next
    case t: (Inr t)
    show ?thesis
    proof (cases "NextVertex t vIdx")
      case (Inl e')
      with "1.prems" lt t show ?thesis
        by (subst (asm) sort_from.simps) simp
    next
      case nxt: (Inr nxt)
      show ?thesis
      proof (cases "find_match vIdx tris incidentTris nxt (i + 1)")
        case (Inl e')
        with "1.prems" lt t nxt show ?thesis
          by (subst (asm) sort_from.simps) (simp add: find_match_error)
      next
        case r: (Inr r)
        show ?thesis
        proof (cases r)
          case None
          with "1.prems" lt t nxt r
          have "sort_from vIdx tris (i + 1) incidentTris = Inl e"
            by (subst (asm) sort_from.simps) simp
          from "1.IH"(1) [OF lt t nxt r None this] show ?thesis .
        next
          case (Some j)
          with "1.prems" lt t nxt r
          have "sort_from vIdx tris (i + 1)
                  (incidentTris[i := incidentTris ! j, j := incidentTris ! i]) = Inl e"
            by (subst (asm) sort_from.simps) simp
          from "1.IH"(2) [OF lt t nxt r Some this] show ?thesis .
        qed
      qed
    qed
  qed
qed

lemma sort_step_error: "sort_step i t = Inl e \<Longrightarrow> e = IndexOutOfRange \<or> e = Panic"
  by (auto simp: sort_step_def ebind_eq_Inl IncidentTriangles_def slice_def
      sortIncidentTriangleIndicesCCW_def dest: sort_from_error split: if_splits)

text \<open>
  Claim C9, as amended. During the CCW incidence sort, if for some position no later
  entry \<open>j\<close> in a site's slice has a triangle whose \<open>PrevVertex\<close> at that site matches
  the previous slot's \<open>NextVertex\<close>, the position is left as it is and the sort goes on
  with the next position. The sort does not loop (its model is a total function), and
  it never fails with \<open>InconsistentHullOutput\<close>: once the options are accepted and the
  hull output has the expected length, the construction does not return that error, and
  it succeeds whenever that output names sites only.
\<close>

theorem sort_without_match:
  "(0 < i \<and> i < length inc \<and> next_at tris v (inc ! (i - 1)) = Inr nxt
      \<and> find_match v tris inc nxt (i + 1) = Inr None
      \<longrightarrow> sort_from v tris i inc = sort_from v tris (i + 1) inc)
   \<and> sortIncidentTriangleIndicesCCW v inc tris \<noteq> Inl InconsistentHullOutput
   \<and> (apply_setters setters \<lparr>Eps = defaultEps\<rparr> = Inr opts
        \<and> length (ch vs (Eps opts)) = 3 * (2 * (length vs - 2))
      \<longrightarrow> NewTriangulation ops ch vs setters \<noteq> Inl InconsistentHullOutput)
   \<and> (apply_setters setters \<lparr>Eps = defaultEps\<rparr> = Inr opts \<and> 4 \<le> length vs
        \<and> length (ch vs (Eps opts)) = 3 * (2 * (length vs - 2))
        \<and> (\<forall>x\<in>set (ch vs (Eps opts)). 0 \<le> x \<and> x < int (length vs))
      \<longrightarrow> (\<exists>t. NewTriangulation ops ch vs setters = Inr t))"
proof (intro conjI impI)
  assume a: "0 < i \<and> i < length inc \<and> next_at tris v (inc ! (i - 1)) = Inr nxt
      \<and> find_match v tris inc nxt (i + 1) = Inr None"
  then obtain t where "at_nat tris (inc ! (i - 1)) = Inr t" and "NextVertex t v = Inr nxt"
    by (auto simp: next_at_def ebind_eq_Inr)
  with a show "sort_from v tris i inc = sort_from v tris (i + 1) inc"
    by (subst sort_from.simps) simp
next
  show "sortIncidentTriangleIndicesCCW v inc tris \<noteq> Inl InconsistentHullOutput"
    using sort_from_error [of v tris 1 inc InconsistentHullOutput]
    by (auto simp: sortIncidentTriangleIndicesCCW_def)
next
  assume a: "apply_setters setters \<lparr>Eps = defaultEps\<rparr> = Inr opts \<and> 4 \<le> length vs
        \<and> length (ch vs (Eps opts)) = 3 * (2 * (length vs - 2))
        \<and> (\<forall>x\<in>set (ch vs (Eps opts)). 0 \<le> x \<and> x < int (length vs))"
  then have "apply_setters setters \<lparr>Eps = defaultEps\<rparr> = Inr opts" and "4 \<le> length vs"
    and "length (ch vs (Eps opts)) = 3 * (2 * (length vs - 2))"
    and "\<forall>x\<in>set (ch vs (Eps opts)). 0 \<le> x \<and> x < int (length vs)"
    by simp_all
  from NewTriangulation_total [where ch = ch and ops = ops, OF this]
  show "\<exists>t. NewTriangulation ops ch vs setters = Inr t"
    by blast
next
  assume a: "apply_setters setters \<lparr>Eps = defaultEps\<rparr> = Inr opts
        \<and> length (ch vs (Eps opts)) = 3 * (2 * (length vs - 2))"
  show "NewTriangulation ops ch vs setters \<noteq> Inl InconsistentHullOutput"
  proof
    assume bad: "NewTriangulation ops ch vs setters = Inl InconsistentHullOutput"
    let ?ch = "ch vs (Eps opts)"
    let ?n = "length vs"
    from bad a have n: "\<not> ?n < 4"
      by (auto simp: NewTriangulation_def Let_def)
    show False
    proof (cases "count_pass ?ch (replicate (?n + 1) 0)")
      case (Inl e)
      with bad a n count_pass_error [OF Inl] show False
        by (simp add: NewTriangulation_def Let_def mult.commute)
    next
      case counted: (Inr counted)
      let ?offs = "prefix_pass ?n counted"
      show False
      proof (cases "efold (place_step ops vs ?ch) [0..<2 * (?n - 2)]
          (replicate (2 * (?n - 2)) (0, 0, 0), replicate (2 * (?n - 2) * 3) 0, take ?n ?offs)")
        case (Inl e)
        from efold_error [OF Inl] place_step_error have "e = Panic" by blast
        with bad a n counted Inl show False
          by (simp add: NewTriangulation_def Let_def mult.commute)
      next
        case placed: (Inr placed)
        with bad a n counted
        have "efold sort_step [0..<?n]
            \<lparr>Vertices = vs, Triangles = fst placed, IncidentTriangleIndices = fst (snd placed),
             IncidentTriangleOffsets = ?offs\<rparr> = Inl InconsistentHullOutput"
          by (simp add: NewTriangulation_def Let_def mult.commute)
        from efold_error [OF this] sort_step_error show False by blast
      qed
    qed
  qed
qed

theorem sort_without_match_witness:
  "next_at (Triangles repeat_triangulation) 0 ([0, 3, 2, 1] ! (2 - 1)) = Inr 3
   \<and> find_match 0 (Triangles repeat_triangulation) [0, 3, 2, 1] 3 (2 + 1) = Inr None
   \<and> sort_from 0 (Triangles repeat_triangulation) 2 [0, 3, 2, 1]
       = sort_from 0 (Triangles repeat_triangulation) (2 + 1) [0, 3, 2, 1]
   \<and> apply_setters [] \<lparr>Eps = defaultEps\<rparr> = Inr \<lparr>Eps = defaultEps\<rparr>
   \<and> 4 \<le> length tetra
   \<and> length (repeat_hull tetra (Eps \<lparr>Eps = defaultEps\<rparr>)) = 3 * (2 * (length tetra - 2))
   \<and> list_all (\<lambda>x. 0 \<le> x \<and> x < int (length tetra)) (repeat_hull tetra (Eps \<lparr>Eps = defaultEps\<rparr>))
   \<and> NewTriangulation exact_r3 repeat_hull tetra [] \<noteq> Inl InconsistentHullOutput
   \<and> NewTriangulation exact_r3 repeat_hull tetra [] = Inr repeat_triangulation"
proof -
  have a: "next_at (Triangles repeat_triangulation) 0 ([0, 3, 2, 1] ! (2 - 1)) = Inr 3"
    and b: "find_match 0 (Triangles repeat_triangulation) [0, 3, 2, 1] 3 (2 + 1) = Inr None"
    by code_simp+
  have c: "apply_setters [] \<lparr>Eps = defaultEps\<rparr> = Inr \<lparr>Eps = defaultEps\<rparr>"
    and d: "length (repeat_hull tetra (Eps \<lparr>Eps = defaultEps\<rparr>)) = 3 * (2 * (length tetra - 2))"
    and e: "4 \<le> length tetra"
    and f: "list_all (\<lambda>x. 0 \<le> x \<and> x < int (length tetra)) (repeat_hull tetra (Eps \<lparr>Eps = defaultEps\<rparr>))"
    by (simp_all add: repeat_hull_def tetra_def)
  from f have g: "\<forall>x\<in>set (repeat_hull tetra (Eps \<lparr>Eps = defaultEps\<rparr>)). 0 \<le> x \<and> x < int (length tetra)"
    by (simp add: list_all_iff)
  from sort_without_match [where i = 2 and inc = "[0, 3, 2, 1]" and v = 0 and nxt = 3
      and tris = "Triangles repeat_triangulation" and setters = "[]"
      and opts = "\<lparr>Eps = defaultEps\<rparr>" and ch = repeat_hull and vs = tetra] a b c d e g
  have "sort_from 0 (Triangles repeat_triangulation) 2 [0, 3, 2, 1]
       = sort_from 0 (Triangles repeat_triangulation) (2 + 1) [0, 3, 2, 1]"
    and "NewTriangulation exact_r3 repeat_hull tetra [] \<noteq> Inl InconsistentHullOutput"
    and "\<exists>t. NewTriangulation exact_r3 repeat_hull tetra [] = Inr t"
    by simp_all
  with a b c d e f NewTriangulation_repeat show ?thesis
    by simp
qed

text \<open>
  The claim as stated, that the construction fails with \<open>InconsistentHullOutput\<close>,
  fails on the second malformed hull output. Around site \<open>0\<close>, after triangle \<open>3\<close> has
  been swapped into position \<open>1\<close>, its \<open>NextVertex\<close> is \<open>3\<close>; position \<open>2\<close> holds
  triangle \<open>2\<close> and the later position \<open>3\<close> holds triangle \<open>1\<close>, both with
  \<open>PrevVertex\<close> \<open>2\<close>; no entry matches, and the construction succeeds.
\<close>

theorem sort_without_match_succeeds:
  "NewTriangulation exact_r3 repeat_hull tetra [] = Inr repeat_triangulation
   \<and> sortIncidentTriangleIndicesCCW 0 [0, 1, 2, 3] (Triangles repeat_triangulation)
       = Inr [0, 3, 2, 1]
   \<and> NextVertex (Triangles repeat_triangulation ! 3) 0 = Inr 3
   \<and> PrevVertex (Triangles repeat_triangulation ! 2) 0 = Inr 2
   \<and> PrevVertex (Triangles repeat_triangulation ! 1) 0 = Inr 2
   \<and> find_match 0 (Triangles repeat_triangulation) [0, 3, 2, 1] 3 3 = Inr None"
proof -
  have "sortIncidentTriangleIndicesCCW 0 [0, 1, 2, 3] (Triangles repeat_triangulation)
       = Inr [0, 3, 2, 1]"
    "NextVertex (Triangles repeat_triangulation ! 3) 0 = Inr 3"
    "PrevVertex (Triangles repeat_triangulation ! 2) 0 = Inr 2"
    "PrevVertex (Triangles repeat_triangulation ! 1) 0 = Inr 2"
    "find_match 0 (Triangles repeat_triangulation) [0, 3, 2, 1] 3 3 = Inr None"
    by code_simp+
  with NewTriangulation_repeat show ?thesis by simp
qed

end
